theory Spec2Isabelle
  imports Complex_Main "HOL-Library.Multiset" "HOL-Library.Product_Lexorder"
begin

section \<open>Floating-point values as the recombinators see them\<close>

text \<open>
  The recombinators never compute with fitness values: they test them with
  \<^verbatim>\<open>std::isfinite\<close>, compare them with \<^verbatim>\<open><\<close> and \<^verbatim>\<open>></\<close>, and
  pass them through \<^verbatim>\<open>std::max\<close> and \<^verbatim>\<open>std::min\<close>.  A \<^verbatim>\<open>double\<close> is
  therefore modelled by the real number it denotes, or one of the three
  non-finite values; comparisons follow IEEE 754 (every comparison with NaN is false).
\<close>

datatype double = Num real | PosInf | NegInf | NaN

fun isfinite :: "double \<Rightarrow> bool" where
  "isfinite (Num x) = True"
| "isfinite PosInf = False"
| "isfinite NegInf = False"
| "isfinite NaN = False"

text \<open>IEEE \<^verbatim>\<open>a < b\<close>.\<close>

fun dless :: "double \<Rightarrow> double \<Rightarrow> bool" where
  "dless NaN b = False"
| "dless a NaN = False"
| "dless (Num x) (Num y) = (x < y)"
| "dless (Num x) PosInf = True"
| "dless (Num x) NegInf = False"
| "dless PosInf b = False"
| "dless NegInf (Num y) = True"
| "dless NegInf PosInf = True"
| "dless NegInf NegInf = False"

text \<open>IEEE \<^verbatim>\<open>a > b\<close> is \<^verbatim>\<open>b < a\<close>.\<close>

definition dgreater :: "double \<Rightarrow> double \<Rightarrow> bool" where
  "dgreater a b = dless b a"

text \<open>\<^verbatim>\<open>std::max(a, b)\<close> is \<^verbatim>\<open>(a < b) ? b : a\<close>; \<^verbatim>\<open>std::min(a, b)\<close> is \<^verbatim>\<open>(b < a) ? b : a\<close>.\<close>

definition std_max :: "double \<Rightarrow> double \<Rightarrow> double" where
  "std_max a b = (if dless a b then b else a)"

definition std_min :: "double \<Rightarrow> double \<Rightarrow> double" where
  "std_min a b = (if dless b a then b else a)"

text \<open>
  \<^verbatim>\<open>std::numeric_limits<double>::min()\<close> is the smallest positive normal value
  \<open>2\<^sup>-\<^sup>1\<^sup>0\<^sup>2\<^sup>2\<close>; \<^verbatim>\<open>std::numeric_limits<double>::max()\<close> is the largest finite value
  \<open>(2\<^sup>5\<^sup>3 - 1) \<sqdot> 2\<^sup>9\<^sup>7\<^sup>1\<close>; \<^verbatim>\<open>lowest()\<close> is its negation.
\<close>

definition numeric_limits_min :: double where
  "numeric_limits_min = Num (1 / 2 ^ 1022)"

definition numeric_limits_max :: double where
  "numeric_limits_max = Num ((2 ^ 53 - 1) * 2 ^ 971)"

definition numeric_limits_lowest :: double where
  "numeric_limits_lowest = Num (- ((2 ^ 53 - 1) * 2 ^ 971))"

text \<open>A finite value that the type \<^verbatim>\<open>double\<close> can hold lies between \<^verbatim>\<open>lowest()\<close> and \<^verbatim>\<open>max()\<close>.\<close>

definition in_double_range :: "double \<Rightarrow> bool" where
  "in_double_range d = (case d of Num x \<Rightarrow> \<bar>x\<bar> \<le> (2 ^ 53 - 1) * 2 ^ 971 | _ \<Rightarrow> True)"

section \<open>Individuals and the collaborators of a recombinator\<close>

text \<open>
  Modelled from the spec: the individual type (a genotype plus its cached fitness vector,
  indexed by objective) and the collaborators of \<^verbatim>\<open>RecombinatorBase\<close> are declared in
  \<^verbatim>\<open>core/operator.hpp\<close>, which is not among the sources.  The fitness vector is a
  function of the objective index.  Each collaborator consumes the random generator and
  returns its advanced state.
\<close>

record 'g Individual =
  Genotype :: 'g
  Fitness :: "nat \<Rightarrow> double"

record ('r, 'g) Collaborators =
  uniformReal :: "'r \<Rightarrow> real \<times> 'r"
  selector :: "'r \<Rightarrow> nat \<times> 'r"
  crossover :: "'r \<Rightarrow> 'g \<Rightarrow> 'g \<Rightarrow> 'g \<times> 'r"
  mutator :: "'r \<Rightarrow> 'g \<Rightarrow> 'g \<times> 'r"
  evaluator :: "'r \<Rightarrow> 'g Individual \<Rightarrow> double \<times> 'r"
  Population :: "'g Individual list"
  Maximization :: bool
  SelectableIndex :: nat

datatype error = IndexOutOfRange

section \<open>The Plus recombinator (\<^verbatim>\<open>operators/recombinator/plus.hpp\<close>)\<close>

text \<open>
  \<^verbatim>\<open>PlusRecombinator::operator()\<close> is given in two steps: producing the evaluated
  candidate (the two draws, the early return, the two selections, crossover, mutation,
  evaluation and the replacement of a non-finite fitness), and the survivor comparison.
  A trial records what the first step did.  \<open>child0\<close> is the default-constructed individual.
  Reading the population outside its range is the error \<open>IndexOutOfRange\<close>.
\<close>

record 'g PlusTrial =
  trialCrossover :: bool
  trialMutation :: bool
  trialFirst :: nat
  trialSecond :: nat
  trialFitness :: double
  trialChild :: "'g Individual"

definition Plus_candidate ::
  "('r, 'g) Collaborators \<Rightarrow> 'g Individual \<Rightarrow> 'r \<Rightarrow> double \<Rightarrow> double
     \<Rightarrow> (error + 'g PlusTrial option) \<times> 'r" where
  "Plus_candidate c child0 random pCrossover pMutation =
    (let (u1, r1) = uniformReal c random;
         doCrossover = dless (Num u1) pCrossover;
         (u2, r2) = uniformReal c r1;
         doMutation = dless (Num u2) pMutation
     in if \<not> (doCrossover \<or> doMutation) then (Inr None, r2)
        else
          let Max = Maximization c;
              Idx = SelectableIndex c;
              population = Population c;
              (first, r3) = selector c r2;
              (second, r4) = selector c r3
          in if length population \<le> first \<or> (doCrossover \<and> length population \<le> second)
             then (Inl IndexOutOfRange, r4)
             else
               let (g1, r5) =
                     (if doCrossover
                      then crossover c r4 (Genotype (population ! first)) (Genotype (population ! second))
                      else (Genotype child0, r4));
                   (g2, r6) =
                     (if doMutation
                      then (if doCrossover then mutator c r5 g1
                            else mutator c r5 (Genotype (population ! first)))
                      else (g1, r5));
                   (f, r7) = evaluator c r6 (child0\<lparr>Genotype := g2\<rparr>);
                   child = child0\<lparr>Genotype := g2,
                             Fitness := (Fitness child0)
                               (Idx := (if isfinite f then f
                                        else if Max then numeric_limits_min else numeric_limits_max))\<rparr>
               in (Inr (Some \<lparr>trialCrossover = doCrossover, trialMutation = doMutation,
                                trialFirst = first, trialSecond = second,
                                trialFitness = f, trialChild = child\<rparr>), r7))"

definition Plus_survivor :: "('r, 'g) Collaborators \<Rightarrow> 'g PlusTrial \<Rightarrow> 'g Individual" where
  "Plus_survivor c t =
    (let Max = Maximization c;
         Idx = SelectableIndex c;
         population = Population c;
         first = trialFirst t;
         second = trialSecond t;
         child = trialChild t
     in if trialCrossover t
        then (if Max \<and> dless (Fitness child Idx)
                          (std_max (Fitness (population ! first) Idx) (Fitness (population ! second) Idx))
              then (if dgreater (Fitness (population ! first) Idx) (Fitness (population ! second) Idx)
                    then population ! first else population ! second)
              else if \<not> Max \<and> dgreater (Fitness child Idx)
                          (std_min (Fitness (population ! first) Idx) (Fitness (population ! second) Idx))
              then (if dless (Fitness (population ! first) Idx) (Fitness (population ! second) Idx)
                    then population ! first else population ! second)
              else child)
        else (if Max \<and> dless (Fitness child Idx) (Fitness (population ! first) Idx)
              then population ! first
              else if \<not> Max \<and> dgreater (Fitness child Idx) (Fitness (population ! first) Idx)
              then population ! first
              else child))"

definition PlusRecombinator_call ::
  "('r, 'g) Collaborators \<Rightarrow> 'g Individual \<Rightarrow> 'r \<Rightarrow> double \<Rightarrow> double
     \<Rightarrow> (error + 'g Individual option) \<times> 'r" where
  "PlusRecombinator_call c child0 random pCrossover pMutation =
    (case Plus_candidate c child0 random pCrossover pMutation of
       (Inl e, r) \<Rightarrow> (Inl e, r)
     | (Inr None, r) \<Rightarrow> (Inr None, r)
     | (Inr (Some t), r) \<Rightarrow> (Inr (Some (Plus_survivor c t)), r))"

section \<open>The OffspringSelection recombinator (\<^verbatim>\<open>operators/recombinator/os.hpp\<close>)\<close>

text \<open>
  \<^verbatim>\<open>OffspringSelectionRecombinator::operator()\<close>, in the same two steps.  The second
  parent is selected only when crossover takes place; \<open>osFit\<close> is the local \<^verbatim>\<open>fit\<close>.
\<close>

record 'g OSTrial =
  osCrossover :: bool
  osMutation :: bool
  osFirst :: nat
  osSecond :: "nat option"
  osFit :: double
  osChild :: "'g Individual"

definition OS_candidate ::
  "('r, 'g) Collaborators \<Rightarrow> 'g Individual \<Rightarrow> 'r \<Rightarrow> double \<Rightarrow> double
     \<Rightarrow> (error + 'g OSTrial option) \<times> 'r" where
  "OS_candidate c child0 random pCrossover pMutation =
    (let (u1, r1) = uniformReal c random;
         doCrossover = dless (Num u1) pCrossover;
         (u2, r2) = uniformReal c r1;
         doMutation = dless (Num u2) pMutation
     in if \<not> (doCrossover \<or> doMutation) then (Inr None, r2)
        else
          let Max = Maximization c;
              Idx = SelectableIndex c;
              population = Population c;
              (first, r3) = selector c r2
          in if length population \<le> first then (Inl IndexOutOfRange, r3)
             else
               let fit = Fitness (population ! first) Idx;
                   (second, r4) = (if doCrossover then apfst Some (selector c r3) else (None, r3))
               in if (case second of Some s \<Rightarrow> length population \<le> s | None \<Rightarrow> False)
                  then (Inl IndexOutOfRange, r4)
                  else
                    let (g1, r5) =
                          (case second of
                             Some s \<Rightarrow> crossover c r4 (Genotype (population ! first)) (Genotype (population ! s))
                           | None \<Rightarrow> (Genotype child0, r4));
                        fit = (case second of
                                 Some s \<Rightarrow> (if Max then std_max fit (Fitness (population ! s) Idx)
                                            else std_min fit (Fitness (population ! s) Idx))
                               | None \<Rightarrow> fit);
                        (g2, r6) =
                          (if doMutation
                           then (if doCrossover then mutator c r5 g1
                                 else mutator c r5 (Genotype (population ! first)))
                           else (g1, r5));
                        (f, r7) = evaluator c r6 (child0\<lparr>Genotype := g2\<rparr>);
                        child = child0\<lparr>Genotype := g2, Fitness := (Fitness child0)(Idx := f)\<rparr>
                    in (Inr (Some \<lparr>osCrossover = doCrossover, osMutation = doMutation,
                                     osFirst = first, osSecond = second,
                                     osFit = fit, osChild = child\<rparr>), r7))"

text \<open>\<^verbatim>\<open>comp\<close> is \<^verbatim>\<open>std::less\<close> when maximizing and \<^verbatim>\<open>std::greater\<close> otherwise.\<close>

definition OS_accept :: "('r, 'g) Collaborators \<Rightarrow> 'g OSTrial \<Rightarrow> 'g Individual option" where
  "OS_accept c t =
    (let Max = Maximization c;
         Idx = SelectableIndex c;
         comp = (if Max then dless else dgreater);
         child = osChild t
     in if isfinite (Fitness child Idx) \<and> comp (osFit t) (Fitness child Idx)
        then Some child
        else None)"

definition OffspringSelectionRecombinator_call ::
  "('r, 'g) Collaborators \<Rightarrow> 'g Individual \<Rightarrow> 'r \<Rightarrow> double \<Rightarrow> double
     \<Rightarrow> (error + 'g Individual option) \<times> 'r" where
  "OffspringSelectionRecombinator_call c child0 random pCrossover pMutation =
    (case OS_candidate c child0 random pCrossover pMutation of
       (Inl e, r) \<Rightarrow> (Inl e, r)
     | (Inr None, r) \<Rightarrow> (Inr None, r)
     | (Inr (Some t), r) \<Rightarrow> (Inr (OS_accept c t), r))"

subsection \<open>The trial as the specification describes it\<close>

text \<open>IEEE \<^verbatim>\<open>a <= b\<close>.\<close>

definition dle :: "double \<Rightarrow> double \<Rightarrow> bool" where
  "dle a b = (a \<noteq> NaN \<and> b \<noteq> NaN \<and> \<not> dless b a)"

text \<open>
  \<open>better maximize a b\<close>: fitness \<open>a\<close> is strictly better than \<open>b\<close> in the active direction;
  \<open>at_least_as_good maximize a b\<close>: \<open>a\<close> is no worse than \<open>b\<close>.  A best fitness among those of
  the contributing parents is one of them than which none of them is strictly better; it
  does not depend on the order in which the parents were selected.
\<close>

definition better :: "bool \<Rightarrow> double \<Rightarrow> double \<Rightarrow> bool" where
  "better maximize a b = (if maximize then dless b a else dless a b)"

definition at_least_as_good :: "bool \<Rightarrow> double \<Rightarrow> double \<Rightarrow> bool" where
  "at_least_as_good maximize a b = (if maximize then dle b a else dle a b)"

definition is_best :: "bool \<Rightarrow> double list \<Rightarrow> double \<Rightarrow> bool" where
  "is_best maximize fs b = (b \<in> set fs \<and> (\<forall>f \<in> set fs. \<not> better maximize f b))"

text \<open>
  Step 1 of the protocol: the first uniform sample decides on crossover, the second on
  mutation.  Step 2: the selector is asked for the first parent and then for the second;
  the parents that contribute to the candidate are both of them when crossing and the
  first one otherwise.  All of this is a function of the collaborators and of the state in
  which the generator is handed to the trial.
\<close>

definition crossover_drawn :: "('r, 'g) Collaborators \<Rightarrow> 'r \<Rightarrow> double \<Rightarrow> bool" where
  "crossover_drawn c random pCrossover = dless (Num (fst (uniformReal c random))) pCrossover"

definition mutation_drawn :: "('r, 'g) Collaborators \<Rightarrow> 'r \<Rightarrow> double \<Rightarrow> bool" where
  "mutation_drawn c random pMutation =
     dless (Num (fst (uniformReal c (snd (uniformReal c random))))) pMutation"

definition after_draws :: "('r, 'g) Collaborators \<Rightarrow> 'r \<Rightarrow> 'r" where
  "after_draws c random = snd (uniformReal c (snd (uniformReal c random)))"

definition first_index :: "('r, 'g) Collaborators \<Rightarrow> 'r \<Rightarrow> nat" where
  "first_index c random = fst (selector c (after_draws c random))"

definition after_first :: "('r, 'g) Collaborators \<Rightarrow> 'r \<Rightarrow> 'r" where
  "after_first c random = snd (selector c (after_draws c random))"

definition second_index :: "('r, 'g) Collaborators \<Rightarrow> 'r \<Rightarrow> nat" where
  "second_index c random = fst (selector c (after_first c random))"

definition after_second :: "('r, 'g) Collaborators \<Rightarrow> 'r \<Rightarrow> 'r" where
  "after_second c random = snd (selector c (after_first c random))"

definition contributing_indices :: "('r, 'g) Collaborators \<Rightarrow> 'r \<Rightarrow> double \<Rightarrow> nat list" where
  "contributing_indices c random pCrossover =
     (if crossover_drawn c random pCrossover
      then [first_index c random, second_index c random]
      else [first_index c random])"

definition contributing_parents ::
  "('r, 'g) Collaborators \<Rightarrow> 'r \<Rightarrow> double \<Rightarrow> 'g Individual list" where
  "contributing_parents c random pCrossover =
     map (\<lambda>i. Population c ! i) (contributing_indices c random pCrossover)"

definition parent_fitnesses :: "('r, 'g) Collaborators \<Rightarrow> 'r \<Rightarrow> double \<Rightarrow> double list" where
  "parent_fitnesses c random pCrossover =
     map (\<lambda>p. Fitness p (SelectableIndex c)) (contributing_parents c random pCrossover)"

text \<open>
  Steps 3 and 4: the candidate genotype is the crossover of the two parents' genotypes when
  crossing, mutated when mutating, or the mutated genotype of the first parent when only
  mutating; it is evaluated by the evaluator.  \<open>r\<close> is the state of the generator after the
  selections: the Plus recombinator always selects twice, the OffspringSelection
  recombinator selects the second parent only when crossing.
\<close>

record ('r, 'g) Built =
  builtGenotype :: 'g
  evaluatedFitness :: double
  finalState :: 'r

definition build_and_evaluate ::
  "('r, 'g) Collaborators \<Rightarrow> 'g Individual \<Rightarrow> 'r \<Rightarrow> double \<Rightarrow> double \<Rightarrow> 'r \<Rightarrow> ('r, 'g) Built" where
  "build_and_evaluate c child0 random pCrossover pMutation r =
     (let p1 = Population c ! first_index c random;
          p2 = Population c ! second_index c random;
          (g, r1) =
            (if crossover_drawn c random pCrossover
             then (let (g0, r0) = crossover c r (Genotype p1) (Genotype p2)
                   in if mutation_drawn c random pMutation then mutator c r0 g0 else (g0, r0))
             else if mutation_drawn c random pMutation then mutator c r (Genotype p1)
             else (Genotype child0, r));
          (f, r2) = evaluator c r1 (child0\<lparr>Genotype := g\<rparr>)
      in \<lparr>builtGenotype = g, evaluatedFitness = f, finalState = r2\<rparr>)"

definition Plus_built ::
  "('r, 'g) Collaborators \<Rightarrow> 'g Individual \<Rightarrow> 'r \<Rightarrow> double \<Rightarrow> double \<Rightarrow> ('r, 'g) Built" where
  "Plus_built c child0 random pCrossover pMutation =
     build_and_evaluate c child0 random pCrossover pMutation (after_second c random)"

definition OS_built ::
  "('r, 'g) Collaborators \<Rightarrow> 'g Individual \<Rightarrow> 'r \<Rightarrow> double \<Rightarrow> double \<Rightarrow> ('r, 'g) Built" where
  "OS_built c child0 random pCrossover pMutation =
     build_and_evaluate c child0 random pCrossover pMutation
       (if crossover_drawn c random pCrossover then after_second c random
        else after_first c random)"

text \<open>
  The value that replaces a non-finite fitness in the Plus recombinator, and the candidate
  of each recombinator: the built genotype with the fitness of the objective set to the
  evaluated fitness, replaced when not finite in the Plus recombinator and as it is in the
  OffspringSelection recombinator.
\<close>

definition sentinel :: "bool \<Rightarrow> double" where
  "sentinel maximize = (if maximize then numeric_limits_min else numeric_limits_max)"

definition with_fitness :: "'g Individual \<Rightarrow> nat \<Rightarrow> 'g \<Rightarrow> double \<Rightarrow> 'g Individual" where
  "with_fitness child0 idx g f = child0\<lparr>Genotype := g, Fitness := (Fitness child0)(idx := f)\<rparr>"

definition Plus_offspring ::
  "('r, 'g) Collaborators \<Rightarrow> 'g Individual \<Rightarrow> 'r \<Rightarrow> double \<Rightarrow> double \<Rightarrow> 'g Individual" where
  "Plus_offspring c child0 random pCrossover pMutation =
     (let b = Plus_built c child0 random pCrossover pMutation
      in with_fitness child0 (SelectableIndex c) (builtGenotype b)
           (if isfinite (evaluatedFitness b) then evaluatedFitness b
            else sentinel (Maximization c)))"

definition OS_offspring ::
  "('r, 'g) Collaborators \<Rightarrow> 'g Individual \<Rightarrow> 'r \<Rightarrow> double \<Rightarrow> double \<Rightarrow> 'g Individual" where
  "OS_offspring c child0 random pCrossover pMutation =
     (let b = OS_built c child0 random pCrossover pMutation
      in with_fitness child0 (SelectableIndex c) (builtGenotype b) (evaluatedFitness b))"

text \<open>
  A concrete setting for closed statements: the generator state counts the calls made so
  far, both draws are \<open>0\<close>, the selector returns index \<open>0\<close> and then index \<open>1\<close>, genotypes
  are lists of numbers, and the evaluator returns the given candidate fitness.
\<close>

definition fixed_setting :: "bool \<Rightarrow> double list \<Rightarrow> double \<Rightarrow> (nat, nat list) Collaborators" where
  "fixed_setting maximize fits cand =
    \<lparr>uniformReal = (\<lambda>r. (0, Suc r)),
     selector = (\<lambda>r. (r - 2, Suc r)),
     crossover = (\<lambda>r a b. (a @ b, Suc r)),
     mutator = (\<lambda>r a. (0 # a, Suc r)),
     evaluator = (\<lambda>r i. (cand, Suc r)),
     Population = map (\<lambda>(i, x). \<lparr>Genotype = [i], Fitness = (\<lambda>_. x)\<rparr>) (enumerate 1 fits),
     Maximization = maximize,
     SelectableIndex = 0\<rparr>"

definition empty_child :: "nat list Individual" where
  "empty_child = \<lparr>Genotype = [], Fitness = (\<lambda>_. Num 0)\<rparr>"

section \<open>Rounding to binary floating point\<close>

text \<open>
  Conversions of integers to \<^verbatim>\<open>float\<close> and \<^verbatim>\<open>double\<close> and the division of two such
  values round to the nearest value with a significand of \<open>p\<close> bits (\<open>p = 24\<close> and
  \<open>p = 53\<close>), ties to the even significand.  \<open>rne\<close> rounds a real to the nearest
  integer, ties to even; \<open>round_ne p x\<close> scales \<open>x\<close> so that its significand has \<open>p\<close> bits
  before the binary point, rounds, and scales back.  The exponent range is not modelled:
  every value rounded below is an integer below \<open>2\<^sup>6\<^sup>4\<close> or a quotient of two such non-zero
  integers, far inside the normal range of both formats.
\<close>

definition rne :: "real \<Rightarrow> int" where
  "rne x = (let f = \<lfloor>x\<rfloor>; d = x - of_int f
            in if d < 1 / 2 then f
               else if 1 / 2 < d then f + 1
               else if even f then f else f + 1)"

definition round_ne :: "nat \<Rightarrow> real \<Rightarrow> real" where
  "round_ne p x =
    (if x = 0 then 0
     else let e = \<lfloor>log 2 \<bar>x\<bar>\<rfloor> - int p + 1
          in of_int (rne (x / 2 powr (of_int e))) * 2 powr (of_int e))"

text \<open>
  \<^verbatim>\<open>static_cast<double>\<close> of a \<^verbatim>\<open>size_t\<close>, and the \<^verbatim>\<open>double\<close> quotient of two finite
  values with a non-zero divisor, as the real numbers they denote.
\<close>

definition size_t_to_double :: "nat \<Rightarrow> real" where
  "size_t_to_double n = round_ne 53 (real n)"

definition double_div :: "real \<Rightarrow> real \<Rightarrow> real" where
  "double_div x y = round_ne 53 (x / y)"

text \<open>Subtraction of two \<^verbatim>\<open>size_t\<close> values wraps modulo \<open>2\<^sup>6\<^sup>4\<close>.\<close>

definition size_t_sub :: "nat \<Rightarrow> nat \<Rightarrow> nat" where
  "size_t_sub a b = (a + 2 ^ 64 - b mod 2 ^ 64) mod 2 ^ 64"

section \<open>Selection pressure of the OffspringSelection recombinator\<close>

text \<open>
  The state the members \<^verbatim>\<open>Prepare\<close>, \<^verbatim>\<open>SelectionPressure\<close> and \<^verbatim>\<open>Terminate\<close> of
  \<^verbatim>\<open>OffspringSelectionRecombinator\<close> read and write: the two \<^verbatim>\<open>size_t\<close> members of the
  class, and of the collaborators the evaluator's cumulative evaluation counter, the
  selector's population view and the result of \<^verbatim>\<open>RecombinatorBase::Terminate()\<close>.

  Modelled from the spec: the selector and the base class are not among the sources;
  the selector's \<^verbatim>\<open>Prepare(population)\<close> makes \<open>population\<close> its current population view.
\<close>

record 'g OSState =
  FitnessEvaluations :: nat
  SelectorPopulation :: "'g Individual list"
  BaseTerminate :: bool
  lastEvaluations :: nat
  maxSelectionPressure :: nat

definition Prepare :: "'g Individual list \<Rightarrow> 'g OSState \<Rightarrow> 'g OSState" where
  "Prepare pop s = s\<lparr>SelectorPopulation := pop, lastEvaluations := FitnessEvaluations s\<rparr>"

definition SelectionPressure :: "'g OSState \<Rightarrow> double" where
  "SelectionPressure s =
    (if SelectorPopulation s = [] then Num 0
     else Num (double_div
                 (size_t_to_double (size_t_sub (FitnessEvaluations s) (lastEvaluations s)))
                 (size_t_to_double (length (SelectorPopulation s)))))"

definition Terminate :: "'g OSState \<Rightarrow> bool" where
  "Terminate s =
    (BaseTerminate s \<or>
     dgreater (SelectionPressure s) (Num (size_t_to_double (maxSelectionPressure s))))"

text \<open>The evaluator's counter after \<open>k\<close> further evaluations.\<close>

definition evaluations_consumed :: "nat \<Rightarrow> 'g OSState \<Rightarrow> 'g OSState" where
  "evaluations_consumed k s = s\<lparr>FitnessEvaluations := (FitnessEvaluations s + k) mod 2 ^ 64\<rparr>"

text \<open>
  The scenario of the specification: a population of ten individuals and
  \<^verbatim>\<open>MaxSelectionPressure = 2\<close>, before \<^verbatim>\<open>Prepare\<close> is called with the evaluator's counter at 100.
\<close>

definition scenario_population :: "nat list Individual list" where
  "scenario_population = replicate 10 \<lparr>Genotype = [], Fitness = (\<lambda>_. Num 0)\<rparr>"

definition scenario_state :: "nat list OSState" where
  "scenario_state =
    \<lparr>FitnessEvaluations = 100, SelectorPopulation = [], BaseTerminate = False,
     lastEvaluations = 0, maxSelectionPressure = 2\<rparr>"

section \<open>The cost function adapter (\<^verbatim>\<open>nnls/tiny_cost_function.hpp\<close>)\<close>

text \<open>
  A dual number (\<^verbatim>\<open>JetT\<close>) has a scalar part \<^verbatim>\<open>a\<close> and \<^verbatim>\<open>Stride\<close> derivative lanes \<^verbatim>\<open>v\<close>.
  The wrapped functor reports its parameter and residual counts and is called either on
  scalars or on dual numbers; it returns the residuals, or fails (returns \<^verbatim>\<open>false\<close>).
\<close>

record 'a Jet =
  jet_a :: 'a
  jet_v :: "'a list"

record 'a CostFunctor =
  NumResiduals :: nat
  NumParameters :: nat
  functor_scalar :: "'a list \<Rightarrow> 'a list option"
  functor_jet :: "'a Jet list \<Rightarrow> 'a Jet list option"

text \<open>
  The locals of \<^verbatim>\<open>Evaluate\<close> together with the two output arrays: \<open>jMap k j\<close> is the
  Jacobian entry of residual \<open>k\<close> and parameter \<open>j\<close> (the \<^verbatim>\<open>Eigen::Map\<close> hides the storage
  order).  Three more fields record what happened, so that statements can count it: the
  input of every evaluation of the functor on dual numbers, the Jacobian columns in the order
  they were written, and the passes in which the residual array was written.
\<close>

record 'a EvalState =
  inputJets :: "'a Jet list"
  outputJets :: "'a Jet list"
  currentDerivativeSection :: nat
  currentDerivativeSectionCursor :: nat
  jMap :: "nat \<Rightarrow> nat \<Rightarrow> 'a"
  residuals :: "'a list"
  functorCalls :: "'a Jet list list"
  columnWrites :: "nat list"
  residualWrites :: "nat list"

text \<open>
  The seeding loop of a pass (\<^verbatim>\<open>for (int j = 0; j < numParameters; ++j)\<close>), from parameter
  \<open>j\<close> on with \<open>active\<close> directions already seeded.
\<close>

fun seed_jets :: "nat \<Rightarrow> nat \<Rightarrow> nat \<Rightarrow> nat \<Rightarrow> ('a::zero_neq_one) Jet list \<Rightarrow> 'a Jet list" where
  "seed_jets Stride cursor j active [] = []"
| "seed_jets Stride cursor j active (x # xs) =
    (if active < Stride \<and> cursor \<le> j
     then x\<lparr>jet_v := (replicate Stride 0)[active := 1]\<rparr>
            # seed_jets Stride cursor (Suc j) (Suc active) xs
     else x\<lparr>jet_v := replicate Stride 0\<rparr>
            # seed_jets Stride cursor (Suc j) active xs)"

text \<open>
  One iteration of the copying loop, for parameter \<open>j\<close>: the pair is
  \<^verbatim>\<open>activeParameterCount\<close> and the state.
\<close>

definition copy_column :: "nat \<Rightarrow> nat \<Rightarrow> nat \<Rightarrow> nat \<times> 'a EvalState \<Rightarrow> nat \<times> 'a EvalState" where
  "copy_column Stride numResiduals j = (\<lambda>(active, s).
    if active < Stride
    then (Suc active,
          s\<lparr>jMap := (\<lambda>k j'. if j' = j \<and> k < numResiduals
                               then jet_v (outputJets s ! k) ! active
                               else jMap s k j'),
            currentDerivativeSectionCursor := Suc (currentDerivativeSectionCursor s),
            columnWrites := columnWrites s @ [j]\<rparr>)
    else (active, s))"

text \<open>
  \<^verbatim>\<open>static_cast<int>(std::ceil(static_cast<float>(numParameters) / static_cast<float>(Stride)))\<close>:
  both conversions and the division round to \<^verbatim>\<open>float\<close>.
\<close>

definition numStrides :: "nat \<Rightarrow> nat \<Rightarrow> nat" where
  "numStrides Stride numParameters =
     nat \<lceil>round_ne 24 (round_ne 24 (real numParameters) / round_ne 24 (real Stride))\<rceil>"

text \<open>
  The body of the loop over the passes: seeding, the evaluation of the functor, the copy of
  the derivative columns and, in the last pass, of the residuals.  The flag is \<open>False\<close> when
  the functor fails.
\<close>

definition evaluate_pass ::
  "('a::zero_neq_one) CostFunctor \<Rightarrow> nat \<Rightarrow> nat \<Rightarrow> nat \<Rightarrow> 'a EvalState \<Rightarrow> bool \<times> 'a EvalState" where
  "evaluate_pass F Stride n pass s =
    (let initialDerivativeSection = currentDerivativeSection s;
         initialDerivativeSectionCursor = currentDerivativeSectionCursor s;
         s1 = s\<lparr>inputJets := seed_jets Stride (currentDerivativeSectionCursor s) 0 0 (inputJets s)\<rparr>;
         s2 = s1\<lparr>functorCalls := functorCalls s1 @ [inputJets s1]\<rparr>
     in case functor_jet F (inputJets s2) of
          None \<Rightarrow> (False, s2)
        | Some out \<Rightarrow>
            let s3 = s2\<lparr>outputJets := out,
                       currentDerivativeSection := initialDerivativeSection,
                       currentDerivativeSectionCursor := initialDerivativeSectionCursor\<rparr>;
                (active, s4) = fold (copy_column Stride (NumResiduals F))
                                 [currentDerivativeSectionCursor s3..<NumParameters F] (0, s3);
                s5 = (if pass = n - 1
                      then s4\<lparr>residuals := map jet_a (outputJets s4)
                                              @ drop (length (outputJets s4)) (residuals s4),
                              residualWrites := residualWrites s4 @ [pass]\<rparr>
                      else s4)
            in (True, s5))"

text \<open>The loop over the passes that remain; a failing functor ends it with \<^verbatim>\<open>false\<close>.\<close>

fun evaluate_passes ::
  "('a::zero_neq_one) CostFunctor \<Rightarrow> nat \<Rightarrow> nat \<Rightarrow> nat list \<Rightarrow> 'a EvalState \<Rightarrow> bool \<times> 'a EvalState" where
  "evaluate_passes F Stride n [] s = (True, s)"
| "evaluate_passes F Stride n (pass # rest) s =
    (case evaluate_pass F Stride n pass s of
       (False, s') \<Rightarrow> (False, s')
     | (True, s') \<Rightarrow> evaluate_passes F Stride n rest s')"

text \<open>
  \<^verbatim>\<open>Evaluate(parameters, residuals, jacobian)\<close>; a null \<^verbatim>\<open>jacobian\<close> is \<open>None\<close>.  The result
  is the returned flag and the final state, whose fields \<open>residuals\<close> and \<open>jMap\<close> are the
  output arrays.
\<close>

definition Evaluate ::
  "('a::zero_neq_one) CostFunctor \<Rightarrow> nat \<Rightarrow> 'a list \<Rightarrow> 'a list \<Rightarrow> (nat \<Rightarrow> nat \<Rightarrow> 'a) option
     \<Rightarrow> bool \<times> 'a EvalState" where
  "Evaluate F Stride parameters residuals0 jacobian =
    (let s0 = \<lparr>inputJets = [], outputJets = [],
               currentDerivativeSection = 0, currentDerivativeSectionCursor = 0,
               jMap = (\<lambda>k j. 0), residuals = residuals0,
               functorCalls = [], columnWrites = [], residualWrites = []\<rparr>
     in case jacobian of
          None \<Rightarrow>
            (case functor_scalar F parameters of
               None \<Rightarrow> (False, s0)
             | Some r \<Rightarrow> (True, s0\<lparr>residuals := r\<rparr>))
        | Some J \<Rightarrow>
            let numParameters = NumParameters F;
                numResiduals = NumResiduals F;
                s1 = s0\<lparr>inputJets := map (\<lambda>j. \<lparr>jet_a = parameters ! j, jet_v = replicate Stride 0\<rparr>)
                                         [0..<numParameters],
                        outputJets := replicate numResiduals \<lparr>jet_a = 0, jet_v = replicate Stride 0\<rparr>,
                        jMap := J\<rparr>
            in evaluate_passes F Stride (numStrides Stride numParameters)
                 [0..<numStrides Stride numParameters] s1)"

text \<open>
  The unit tangent of lane \<open>i\<close>; the tangent that pass \<open>p\<close> gives parameter \<open>j\<close>; and
  the dual numbers that pass \<open>p\<close> hands to the functor.
\<close>

definition unit_tangent :: "nat \<Rightarrow> nat \<Rightarrow> ('a::zero_neq_one) list" where
  "unit_tangent Stride i = (replicate Stride 0)[i := 1]"

definition stride_tangent :: "nat \<Rightarrow> nat \<Rightarrow> nat \<Rightarrow> ('a::zero_neq_one) list" where
  "stride_tangent Stride p j =
     (if p * Stride \<le> j \<and> j < p * Stride + Stride then unit_tangent Stride (j - p * Stride)
      else replicate Stride 0)"

definition stride_input :: "nat \<Rightarrow> ('a::zero_neq_one) list \<Rightarrow> nat \<Rightarrow> nat \<Rightarrow> 'a Jet list" where
  "stride_input Stride parameters numParameters p =
     map (\<lambda>j. \<lparr>jet_a = parameters ! j, jet_v = stride_tangent Stride p j\<rparr>) [0..<numParameters]"

text \<open>
  A functor for closed statements: two parameters, one residual, failing on every call;
  and a linear one, \<open>r(p) = p\<^sub>0 + 2 p\<^sub>1 + 3 p\<^sub>2\<close>, that never fails.
\<close>

definition failing_functor :: "real CostFunctor" where
  "failing_functor =
    \<lparr>NumResiduals = 1, NumParameters = 2,
     functor_scalar = (\<lambda>p. None), functor_jet = (\<lambda>p. None)\<rparr>"

definition linear_functor :: "real CostFunctor" where
  "linear_functor =
    \<lparr>NumResiduals = 1, NumParameters = 3,
     functor_scalar = (\<lambda>p. Some [p ! 0 + 2 * p ! 1 + 3 * p ! 2]),
     functor_jet = (\<lambda>p. Some [\<lparr>jet_a = jet_a (p ! 0) + 2 * jet_a (p ! 1) + 3 * jet_a (p ! 2),
                                jet_v = map (\<lambda>i. jet_v (p ! 0) ! i + 2 * jet_v (p ! 1) ! i
                                                  + 3 * jet_v (p ! 2) ! i)
                                          [0..<length (jet_v (p ! 0))]\<rparr>])\<rparr>"

text \<open>A functor with \<open>2\<^sup>2\<^sup>4 + 1\<close> parameters and one residual that never fails.\<close>

definition wide_functor :: "real CostFunctor" where
  "wide_functor =
    \<lparr>NumResiduals = 1, NumParameters = 16777217,
     functor_scalar = (\<lambda>p. Some [0]),
     functor_jet = (\<lambda>p. Some [\<lparr>jet_a = 0, jet_v = replicate 2 0\<rparr>])\<rparr>"

section \<open>The expression tree (\<^verbatim>\<open>core/tree.hpp\<close>, \<^verbatim>\<open>core/tree.cpp\<close>)\<close>

text \<open>
  Modelled from the spec: \<^verbatim>\<open>core/node.hpp\<close> is not among the sources.  A node has the
  fields the specification lists and a kind; the kinds are those the sources name.
  Constants and variables are the leaves, addition and multiplication the commutative
  operators.  The numeric fields are natural numbers: the sources do not show their widths.
\<close>

datatype NodeType = Add | Mul | Sub | Div | Aq | Exp | Log | Sin | Cos | Tan | Constant | Variable

record Node =
  Type :: NodeType
  Arity :: nat
  Length :: nat
  Depth :: nat
  Parent :: nat
  IsEnabled :: bool
  HashValue :: nat
  CalculatedHashValue :: nat
  Value :: real

definition IsConstant :: "Node \<Rightarrow> bool" where
  "IsConstant n = (Type n = Constant)"

definition IsVariable :: "Node \<Rightarrow> bool" where
  "IsVariable n = (Type n = Variable)"

definition IsLeaf :: "Node \<Rightarrow> bool" where
  "IsLeaf n = (IsConstant n \<or> IsVariable n)"

definition IsCommutative :: "Node \<Rightarrow> bool" where
  "IsCommutative n = (Type n = Add \<or> Type n = Mul)"

subsection \<open>The iterator over the children of a node\<close>

text \<open>
  \<^verbatim>\<open>SubtreeIterator\<close> keeps the parent's index and the index of the current child, both
  \<^verbatim>\<open>size_t\<close>; the node storage it refers to is passed to each operation.  The constructor
  starts at \<open>i - 1\<close>, which wraps for \<open>i = 0\<close> (its \<^verbatim>\<open>EXPECT(i > 0)\<close> is a contract on the
  caller); the increment subtracts \<^verbatim>\<open>nodes_[index_].Length + 1UL\<close>, which wraps below zero.
\<close>

record SubtreeIterator =
  parentIndex :: nat
  index :: nat

definition Children :: "nat \<Rightarrow> SubtreeIterator" where
  "Children i = \<lparr>parentIndex = i, index = size_t_sub i 1\<rparr>"

definition HasNext :: "Node list \<Rightarrow> SubtreeIterator \<Rightarrow> bool" where
  "HasNext nodes it =
     (index it < parentIndex it \<and>
      size_t_sub (parentIndex it) (Length (nodes ! parentIndex it)) \<le> index it)"

definition increment :: "Node list \<Rightarrow> SubtreeIterator \<Rightarrow> SubtreeIterator" where
  "increment nodes it = it\<lparr>index := size_t_sub (index it) (Length (nodes ! index it) + 1)\<rparr>"

definition Index :: "SubtreeIterator \<Rightarrow> nat" where
  "Index it = index it"

text \<open>
  The loop \<^verbatim>\<open>for (auto it = Children(i); it.HasNext(); ++it) indices.push_back(it.Index())\<close>,
  from a given iterator on.  Nothing in the iterator bounds the number of steps (an
  increment by a multiple of \<open>2\<^sup>6\<^sup>4\<close> stays in place), so the loop is a partial function:
  \<open>None\<close> when it does not end.
\<close>

partial_function (option) collect_children ::
  "Node list \<Rightarrow> SubtreeIterator \<Rightarrow> nat list \<Rightarrow> nat list option" where
  "collect_children nodes it indices =
     (if HasNext nodes it
      then collect_children nodes (increment nodes it) (indices @ [Index it])
      else Some indices)"

definition ChildIndices :: "Node list \<Rightarrow> nat \<Rightarrow> nat list option" where
  "ChildIndices nodes i = collect_children nodes (Children i) []"

subsection \<open>\<^verbatim>\<open>Tree::UpdateNodes\<close>\<close>

text \<open>
  The inner loop of \<^verbatim>\<open>UpdateNodes\<close> for the node \<open>i\<close>: it adds the child's length to
  \<^verbatim>\<open>s.Length\<close>, raises \<^verbatim>\<open>s.Depth\<close> and sets the child's parent, while \<^verbatim>\<open>HasNext\<close> reads the
  length of node \<open>i\<close> as updated so far.
\<close>

partial_function (option) UpdateNodes_children ::
  "nat \<Rightarrow> Node list \<Rightarrow> SubtreeIterator \<Rightarrow> Node list option" where
  "UpdateNodes_children i nodes it =
     (if HasNext nodes it
      then (let child = nodes ! Index it;
                s = nodes ! i;
                s1 = s\<lparr>Length := Length s + Length child\<rparr>;
                s2 = (if Depth s1 < Depth child then s1\<lparr>Depth := Depth child\<rparr> else s1);
                nodes1 = nodes[i := s2];
                nodes2 = nodes1[Index it := (nodes1 ! Index it)\<lparr>Parent := i\<rparr>]
            in UpdateNodes_children i nodes2 (increment nodes2 it))
      else Some nodes)"

definition UpdateNodes_node :: "Node list \<Rightarrow> nat \<Rightarrow> Node list option" where
  "UpdateNodes_node nodes i =
     (let s = (nodes ! i)\<lparr>Depth := 1, Length := Arity (nodes ! i)\<rparr>
      in if IsLeaf s then Some (nodes[i := s\<lparr>Arity := 0, Length := 0\<rparr>])
         else (case UpdateNodes_children i (nodes[i := s]) (Children i) of
                 None \<Rightarrow> None
               | Some nodes1 \<Rightarrow> Some (nodes1[i := (nodes1 ! i)\<lparr>Depth := Depth (nodes1 ! i) + 1\<rparr>])))"

text \<open>
  The loop \<^verbatim>\<open>for (size_t i = 0; i < nodes.size(); ++i)\<close> of \<^verbatim>\<open>UpdateNodes\<close>, \<^verbatim>\<open>Sort\<close> and
  \<^verbatim>\<open>Hash\<close>, over the indices that remain, for a body that may not return.
\<close>

fun for_each_index ::
  "(Node list \<Rightarrow> nat \<Rightarrow> Node list option) \<Rightarrow> nat list \<Rightarrow> Node list \<Rightarrow> Node list option" where
  "for_each_index body [] nodes = Some nodes"
| "for_each_index body (i # rest) nodes =
     (case body nodes i of
        None \<Rightarrow> None
      | Some nodes1 \<Rightarrow> for_each_index body rest nodes1)"

definition UpdateNodes :: "Node list \<Rightarrow> Node list option" where
  "UpdateNodes nodes = for_each_index UpdateNodes_node [0..<length nodes] nodes"

subsection \<open>\<^verbatim>\<open>Tree::Subtree\<close>\<close>

text \<open>
  \<^verbatim>\<open>std::copy_n(nodes_.begin() + i - n.Length, n.Length, std::back_inserter(subtree))\<close>
  copies \<^verbatim>\<open>n.Length\<close> nodes starting at index \<open>i - n.Length\<close>; the copy is then updated.
  The result is \<open>None\<close> where the source reads outside the node array.
\<close>

definition Subtree :: "Node list \<Rightarrow> nat \<Rightarrow> Node list option" where
  "Subtree nodes i =
     (if i < length nodes \<and> Length (nodes ! i) \<le> i
      then (let n = nodes ! i;
                subtree = take (Length n) (drop (i - Length n) nodes)
            in UpdateNodes subtree)
      else None)"

subsection \<open>The subtree-range invariant\<close>

text \<open>
  \<open>walk nodes e k\<close> steps over \<open>k\<close> subtrees that end just below index \<open>e\<close>, each occupying
  its root and the \<^verbatim>\<open>Length\<close> nodes before it, and returns the index at which the
  leftmost of them starts.  The derived fields satisfy the invariant when, for every node
  \<open>i\<close>, the \<^verbatim>\<open>Arity\<close> subtrees below \<open>i\<close> fill exactly the range from \<open>i - Length\<close> up to
  \<open>i\<close>, and leaves have no children.
\<close>

fun walk :: "Node list \<Rightarrow> nat \<Rightarrow> nat \<Rightarrow> nat option" where
  "walk nodes e 0 = Some e"
| "walk nodes e (Suc k) =
     (if e = 0 \<or> length nodes < e then None
      else if Length (nodes ! (e - 1)) \<le> e - 1
      then walk nodes (e - 1 - Length (nodes ! (e - 1))) k
      else None)"

definition subtree_range_invariant :: "Node list \<Rightarrow> bool" where
  "subtree_range_invariant nodes =
     (\<forall>i \<in> {0..<length nodes}.
        Length (nodes ! i) \<le> i \<and>
        walk nodes i (Arity (nodes ! i)) = Some (i - Length (nodes ! i)) \<and>
        (IsLeaf (nodes ! i) \<longrightarrow> Arity (nodes ! i) = 0))"

text \<open>Nodes for closed statements, and the tree \<open>(x + y) * c\<close> in postfix order.\<close>

definition leaf_node :: "NodeType \<Rightarrow> nat \<Rightarrow> Node" where
  "leaf_node t h =
     \<lparr>Type = t, Arity = 0, Length = 0, Depth = 1, Parent = 0, IsEnabled = True,
      HashValue = h, CalculatedHashValue = h, Value = 1\<rparr>"

definition function_node :: "NodeType \<Rightarrow> nat \<Rightarrow> nat \<Rightarrow> nat \<Rightarrow> nat \<Rightarrow> Node" where
  "function_node t h ar len d =
     \<lparr>Type = t, Arity = ar, Length = len, Depth = d, Parent = 0, IsEnabled = True,
      HashValue = h, CalculatedHashValue = h, Value = 1\<rparr>"

definition example_tree :: "Node list" where
  "example_tree =
     [leaf_node Variable 11, leaf_node Variable 12, function_node Add 1 2 2 2,
      leaf_node Constant 13, function_node Mul 2 2 4 3]"

subsection \<open>\<^verbatim>\<open>Tree::Hash\<close>\<close>

text \<open>
  Modelled from the spec: the comparison of two nodes (\<^verbatim>\<open>Node::operator<\<close>, in
  \<^verbatim>\<open>core/node.hpp\<close>) is a total order over the structural hash, ties broken by the node's own
  hash.  \<^verbatim>\<open>std::stable_sort\<close> with this comparison is the stable sort by \<open>Node_key\<close>.
\<close>

definition Node_key :: "Node \<Rightarrow> nat \<times> nat" where
  "Node_key n = (CalculatedHashValue n, HashValue n)"

definition Node_less :: "Node \<Rightarrow> Node \<Rightarrow> bool" where
  "Node_less a b = (Node_key a < Node_key b)"

text \<open>
  The hash function is a parameter (\<^verbatim>\<open>hash/hash.hpp\<close> is not among the sources):
  \<open>hasher\<close> digests a sequence of hash values, \<open>hasher_leaf\<close> the key made of a leaf's hash
  and value.
\<close>

datatype HashMode = Strict | Relaxed

record HashFunction =
  hasher :: "nat list \<Rightarrow> nat"
  hasher_leaf :: "nat \<Rightarrow> real \<Rightarrow> nat"

text \<open>
  The body of the loop of \<^verbatim>\<open>Hash\<close> for node \<open>i\<close>.  The result is \<open>None\<close> when the iteration
  over the children does not end or yields fewer than \<^verbatim>\<open>Arity\<close> indices.
\<close>

definition Hash_node :: "HashFunction \<Rightarrow> HashMode \<Rightarrow> Node list \<Rightarrow> nat \<Rightarrow> Node list option" where
  "Hash_node H mode nodes i =
     (let n = nodes ! i
      in if IsLeaf n
         then Some (nodes[i := n\<lparr>CalculatedHashValue :=
                      (if mode = Strict then hasher_leaf H (HashValue n) (Value n)
                       else HashValue n)\<rparr>])
         else (case collect_children nodes (Children i) [] of
                 None \<Rightarrow> None
               | Some childIndices \<Rightarrow>
                   if length childIndices < Arity n then None
                   else
                     let children = take (Arity n) childIndices;
                         children = (if IsCommutative n
                                     then sort_key (\<lambda>j. Node_key (nodes ! j)) children
                                     else children);
                         hashes = map (\<lambda>j. CalculatedHashValue (nodes ! j)) children @ [HashValue n]
                     in Some (nodes[i := n\<lparr>CalculatedHashValue := hasher H hashes\<rparr>])))"

definition Hash :: "HashFunction \<Rightarrow> HashMode \<Rightarrow> Node list \<Rightarrow> Node list option" where
  "Hash H mode nodes = for_each_index (Hash_node H mode) [0..<length nodes] nodes"

text \<open>\<^verbatim>\<open>Tree::HashValue()\<close>: the structural hash of the root, the last node.\<close>

definition Tree_HashValue :: "Node list \<Rightarrow> nat" where
  "Tree_HashValue nodes = (if nodes = [] then 0 else CalculatedHashValue (last nodes))"

subsection \<open>\<^verbatim>\<open>Tree::Sort\<close>\<close>

text \<open>
  What \<^verbatim>\<open>Sort\<close> takes from outside: the hash \<^verbatim>\<open>xxh::xxhash<64>\<close> of a sequence of hash
  values and of a node's value, and \<^verbatim>\<open>std::sort\<close>, once on a range of nodes and once on the
  child indices with the comparison of the nodes they refer to.  \<^verbatim>\<open>std::sort\<close> leaves the
  order of equivalent elements open, so both are parameters.
\<close>

record SortFunctions =
  xxhash :: "nat list \<Rightarrow> nat"
  xxhash_value :: "real \<Rightarrow> nat"
  sort_nodes :: "Node list \<Rightarrow> Node list"
  sort_indices :: "Node list \<Rightarrow> nat list \<Rightarrow> nat list"

text \<open>A sorting function returns a permutation of its argument.\<close>

definition permuting :: "SortFunctions \<Rightarrow> bool" where
  "permuting F =
     ((\<forall>xs. mset (sort_nodes F xs) = mset xs) \<and>
      (\<forall>nodes js. mset (sort_indices F nodes js) = mset js))"

text \<open>The nodes \<open>b, \<dots>, e - 1\<close>, and the array with \<open>xs\<close> copied to index \<open>b\<close> onwards.\<close>

definition slice :: "'a list \<Rightarrow> nat \<Rightarrow> nat \<Rightarrow> 'a list" where
  "slice xs b e = take (e - b) (drop b xs)"

definition copy_to :: "'a list \<Rightarrow> nat \<Rightarrow> 'a list \<Rightarrow> 'a list" where
  "copy_to nodes b xs = take b nodes @ xs @ drop (b + length xs) nodes"

text \<open>
  The body of the loop of \<^verbatim>\<open>Sort\<close> for node \<open>i\<close>.  The child indices are collected in a
  \<^verbatim>\<open>vector<int>\<close>; \<^verbatim>\<open>int\<close> is taken to be 32 bits wide.  The result is \<open>None\<close> when the
  iteration over the children does not end, when a child index does not fit an \<^verbatim>\<open>int\<close>, or
  when the source would read or write outside the array.
\<close>

definition Sort_node :: "SortFunctions \<Rightarrow> bool \<Rightarrow> Node list \<Rightarrow> nat \<Rightarrow> Node list option" where
  "Sort_node F strict nodes i =
     (let s = nodes ! i
      in if IsConstant s then Some nodes
         else if IsVariable s
         then (if strict
               then Some (nodes[i := s\<lparr>CalculatedHashValue :=
                            xxhash F [HashValue s, xxhash_value F (Value s)]\<rparr>])
               else Some (nodes[i := s\<lparr>CalculatedHashValue := HashValue s\<rparr>]))
         else
           let arity = Arity s;
               size = Length s
           in if i < size then None
              else
                let sBegin = i - size;
                    sEnd = i;
                    reordered =
                      (if IsCommutative s
                       then (if arity = size
                             then Some (copy_to nodes sBegin (sort_nodes F (slice nodes sBegin sEnd)))
                             else (case collect_children nodes (Children i) [] of
                                     None \<Rightarrow> None
                                   | Some indices \<Rightarrow>
                                       if \<exists>j \<in> set indices. 2 ^ 31 \<le> j then None
                                       else
                                         let children = sort_indices F nodes indices;
                                             sorted = concat (map (\<lambda>j. slice nodes (j - Length (nodes ! j)) (j + 1))
                                                                children)
                                         in if (\<forall>j \<in> set children. Length (nodes ! j) \<le> j \<and> j < length nodes)
                                               \<and> sBegin + length sorted \<le> length nodes
                                            then Some (copy_to nodes sBegin sorted)
                                            else None))
                       else Some nodes)
                in (case reordered of
                      None \<Rightarrow> None
                    | Some nodes1 \<Rightarrow>
                        let hashes = map CalculatedHashValue (slice nodes1 sBegin sEnd)
                                       @ [HashValue (nodes1 ! i)]
                        in Some (nodes1[i := (nodes1 ! i)\<lparr>CalculatedHashValue := xxhash F hashes\<rparr>])))"

definition Sort :: "SortFunctions \<Rightarrow> bool \<Rightarrow> Node list \<Rightarrow> Node list option" where
  "Sort F strict nodes =
     (case for_each_index (Sort_node F strict) [0..<length nodes] nodes of
        None \<Rightarrow> None
      | Some nodes1 \<Rightarrow> UpdateNodes nodes1)"

subsection \<open>Trees in postfix order\<close>

text \<open>
  The tree a node array stands for: a node with its child subtrees from left to right.
  \<open>flat\<close> is the postfix order; \<open>wf_tree\<close> says that the derived fields \<^verbatim>\<open>Arity\<close> and \<^verbatim>\<open>Length\<close>
  agree with the tree; \<open>sim\<close> relates two trees that differ in the order of the children
  of commutative nodes and in the fields \<^verbatim>\<open>Depth\<close>, \<^verbatim>\<open>Parent\<close>, \<^verbatim>\<open>IsEnabled\<close>, \<^verbatim>\<open>Value\<close>
  and \<^verbatim>\<open>CalculatedHashValue\<close> only.
\<close>

datatype tr = Nd Node "tr list"

fun root_node :: "tr \<Rightarrow> Node" where
  "root_node (Nd n cs) = n"

fun children :: "tr \<Rightarrow> tr list" where
  "children (Nd n cs) = cs"

fun flat :: "tr \<Rightarrow> Node list" where
  "flat (Nd n cs) = concat (map flat cs) @ [n]"

text \<open>
  A list of trees laid out one after the other, and the indices of their roots when the
  first tree starts at index \<open>lo\<close>.
\<close>

definition forest :: "tr list \<Rightarrow> Node list" where
  "forest cs = concat (map flat cs)"

fun root_positions :: "nat \<Rightarrow> tr list \<Rightarrow> nat list" where
  "root_positions lo [] = []"
| "root_positions lo (c # cs) =
     (lo + length (flat c) - 1) # root_positions (lo + length (flat c)) cs"

fun wf_tree :: "tr \<Rightarrow> bool" where
  "wf_tree (Nd n cs) =
     (Arity n = length cs \<and> Length n = length (forest cs) \<and>
      (IsLeaf n \<longrightarrow> cs = []) \<and> (\<forall>c \<in> set cs. wf_tree c))"

definition same_shape :: "Node \<Rightarrow> Node \<Rightarrow> bool" where
  "same_shape a b =
     (Type a = Type b \<and> Arity a = Arity b \<and> Length a = Length b \<and> HashValue a = HashValue b)"

inductive sim :: "tr \<Rightarrow> tr \<Rightarrow> bool" where
  "same_shape n n' \<Longrightarrow> list_all2 sim cs ds \<Longrightarrow> mset cs' = mset ds \<Longrightarrow>
   (\<not> IsCommutative n \<Longrightarrow> cs' = ds) \<Longrightarrow> sim (Nd n cs) (Nd n' cs')"

text \<open>What \<^verbatim>\<open>Hash\<close> in relaxed mode computes, on trees.\<close>

fun hashed :: "HashFunction \<Rightarrow> tr \<Rightarrow> tr" where
  "hashed H (Nd n cs) =
     (let cs' = map (hashed H) cs;
          kids = rev (map root_node cs');
          kids' = (if IsCommutative n then sort_key Node_key kids else kids)
      in Nd (n\<lparr>CalculatedHashValue :=
                 (if IsLeaf n then HashValue n
                  else hasher H (map CalculatedHashValue kids' @ [HashValue n]))\<rparr>) cs')"

text \<open>
  Sorting functions and hash functions for closed statements, and the tree
  \<open>c * (y + x)\<close>, whose commutative nodes \<^verbatim>\<open>Sort\<close> reorders.
\<close>

definition example_sort :: SortFunctions where
  "example_sort =
     \<lparr>xxhash = (\<lambda>hs. foldl (\<lambda>h x. (31 * h + x) mod 1000003) 7 hs),
      xxhash_value = (\<lambda>v. 5),
      sort_nodes = sort_key Node_key,
      sort_indices = (\<lambda>nodes. sort_key (\<lambda>j. Node_key (nodes ! j)))\<rparr>"

definition example_hash :: HashFunction where
  "example_hash =
     \<lparr>hasher = (\<lambda>hs. foldl (\<lambda>h x. (31 * h + x) mod 1000003) 7 hs),
      hasher_leaf = (\<lambda>h v. h + 1)\<rparr>"

definition unsorted_tree :: "Node list" where
  "unsorted_tree =
     [leaf_node Constant 13, leaf_node Variable 12, leaf_node Variable 11,
      function_node Add 1 2 2 2, function_node Mul 2 2 4 3]"

section \<open>Properties of the recombinators\<close>

subsection \<open>Comparisons\<close>

lemma dless_irrefl [simp]: "\<not> dless a a"
  by (cases a) auto

lemma dless_asym: "dless a b \<Longrightarrow> \<not> dless b a"
  by (cases a; cases b) auto

lemma dless_total: "a \<noteq> NaN \<Longrightarrow> b \<noteq> NaN \<Longrightarrow> dless a b \<or> a = b \<or> dless b a"
  by (cases a; cases b) auto

lemma dless_trans: "dless a b \<Longrightarrow> dless b c \<Longrightarrow> dless a c"
  by (cases a; cases b; cases c) auto

lemma dless_not_NaN: "dless a b \<Longrightarrow> a \<noteq> NaN \<and> b \<noteq> NaN"
  by (cases a; cases b) auto

lemma isfinite_not_NaN: "isfinite a \<Longrightarrow> a \<noteq> NaN"
  by (cases a) auto

lemma is_best_single: "is_best maximize [a] b \<longleftrightarrow> b = a"
  by (auto simp add: is_best_def better_def)

lemma is_best_pair:
  assumes "a \<noteq> NaN" and "b \<noteq> NaN"
  shows "is_best maximize [a, b] x \<longleftrightarrow> x = (if maximize then std_max a b else std_min a b)"
  using assms dless_asym [of a b] dless_total [of a b]
  by (auto simp add: is_best_def better_def std_max_def std_min_def)

subsection \<open>The two steps of a call and the protocol\<close>

lemma Plus_candidate_protocol:
  "Plus_candidate c child random pC pM =
     (if \<not> (crossover_drawn c random pC \<or> mutation_drawn c random pM)
      then (Inr None, after_draws c random)
      else if \<exists>i \<in> set (contributing_indices c random pC). length (Population c) \<le> i
      then (Inl IndexOutOfRange, after_second c random)
      else (Inr (Some \<lparr>trialCrossover = crossover_drawn c random pC,
                       trialMutation = mutation_drawn c random pM,
                       trialFirst = first_index c random,
                       trialSecond = second_index c random,
                       trialFitness = evaluatedFitness (Plus_built c child random pC pM),
                       trialChild = Plus_offspring c child random pC pM\<rparr>),
            finalState (Plus_built c child random pC pM)))"
  by (simp add: Plus_candidate_def crossover_drawn_def mutation_drawn_def after_draws_def
      first_index_def second_index_def after_first_def after_second_def contributing_indices_def
      Plus_built_def Plus_offspring_def build_and_evaluate_def with_fitness_def sentinel_def
      Let_def split: prod.splits)

lemma OS_candidate_protocol:
  "OS_candidate c child random pC pM =
     (if \<not> (crossover_drawn c random pC \<or> mutation_drawn c random pM)
      then (Inr None, after_draws c random)
      else if length (Population c) \<le> first_index c random
      then (Inl IndexOutOfRange, after_first c random)
      else if crossover_drawn c random pC \<and> length (Population c) \<le> second_index c random
      then (Inl IndexOutOfRange, after_second c random)
      else (Inr (Some \<lparr>osCrossover = crossover_drawn c random pC,
                       osMutation = mutation_drawn c random pM,
                       osFirst = first_index c random,
                       osSecond = (if crossover_drawn c random pC
                                   then Some (second_index c random) else None),
                       osFit = (let f1 = Fitness (Population c ! first_index c random) (SelectableIndex c);
                                    f2 = Fitness (Population c ! second_index c random) (SelectableIndex c)
                                in if crossover_drawn c random pC
                                   then (if Maximization c then std_max f1 f2 else std_min f1 f2)
                                   else f1),
                       osChild = OS_offspring c child random pC pM\<rparr>),
            finalState (OS_built c child random pC pM)))"
  by (cases "dless (Num (fst (uniformReal c random))) pC")
     (auto simp add: OS_candidate_def crossover_drawn_def mutation_drawn_def after_draws_def
        first_index_def second_index_def after_first_def after_second_def
        OS_built_def OS_offspring_def build_and_evaluate_def with_fitness_def
        Let_def apfst_def map_prod_def split: prod.splits)

lemma Plus_call_protocol:
  assumes "crossover_drawn c random pC \<or> mutation_drawn c random pM"
    and "\<forall>i \<in> set (contributing_indices c random pC). i < length (Population c)"
  shows "PlusRecombinator_call c child random pC pM =
     (Inr (Some (Plus_survivor c
        \<lparr>trialCrossover = crossover_drawn c random pC,
         trialMutation = mutation_drawn c random pM,
         trialFirst = first_index c random,
         trialSecond = second_index c random,
         trialFitness = evaluatedFitness (Plus_built c child random pC pM),
         trialChild = Plus_offspring c child random pC pM\<rparr>)),
      finalState (Plus_built c child random pC pM))"
proof -
  have "\<not> (\<exists>i \<in> set (contributing_indices c random pC). length (Population c) \<le> i)"
    using assms(2) by (simp add: not_le)
  then show ?thesis
    using assms(1) by (simp only: PlusRecombinator_call_def Plus_candidate_protocol) simp
qed

lemma Plus_offspring_fitness:
  "Fitness (Plus_offspring c child random pC pM) (SelectableIndex c) =
     (if isfinite (evaluatedFitness (Plus_built c child random pC pM))
      then evaluatedFitness (Plus_built c child random pC pM)
      else sentinel (Maximization c))"
  by (simp add: Plus_offspring_def with_fitness_def Let_def)

lemma isfinite_sentinel: "isfinite (sentinel maximize)"
  by (simp add: sentinel_def numeric_limits_min_def numeric_limits_max_def)

lemma Plus_survivor_rule:
  assumes trig: "crossover_drawn c random pC \<or> mutation_drawn c random pM"
    and range: "\<forall>i \<in> set (contributing_indices c random pC). i < length (Population c)"
    and nonan: "\<forall>f \<in> set (parent_fitnesses c random pC). f \<noteq> NaN"
  shows "\<exists>best res.
          (\<forall>b. is_best (Maximization c) (parent_fitnesses c random pC) b \<longleftrightarrow> b = best) \<and>
          PlusRecombinator_call c child random pC pM =
            (Inr (Some res), finalState (Plus_built c child random pC pM)) \<and>
          (if at_least_as_good (Maximization c)
                (Fitness (Plus_offspring c child random pC pM) (SelectableIndex c)) best
           then res = Plus_offspring c child random pC pM
           else res \<in> set (contributing_parents c random pC) \<and>
                Fitness res (SelectableIndex c) = best) \<and>
          at_least_as_good (Maximization c) (Fitness res (SelectableIndex c)) best"
proof -
  let ?I = "SelectableIndex c"
  let ?cand = "Plus_offspring c child random pC pM"
  let ?cf = "Fitness ?cand ?I"
  let ?p1 = "Population c ! first_index c random"
  let ?p2 = "Population c ! second_index c random"
  let ?f1 = "Fitness ?p1 ?I"
  let ?f2 = "Fitness ?p2 ?I"
  let ?t = "\<lparr>trialCrossover = crossover_drawn c random pC,
         trialMutation = mutation_drawn c random pM,
         trialFirst = first_index c random,
         trialSecond = second_index c random,
         trialFitness = evaluatedFitness (Plus_built c child random pC pM),
         trialChild = ?cand\<rparr>"
  have "isfinite ?cf"
    by (simp add: Plus_offspring_fitness isfinite_sentinel)
  then obtain x where cf: "?cf = Num x"
    by (cases ?cf) simp_all
  have call: "PlusRecombinator_call c child random pC pM =
      (Inr (Some (Plus_survivor c ?t)), finalState (Plus_built c child random pC pM))"
    using trig range by (rule Plus_call_protocol)
  show ?thesis
  proof (cases "crossover_drawn c random pC")
    case False
    have fs: "parent_fitnesses c random pC = [?f1]" and ps: "contributing_parents c random pC = [?p1]"
      using False by (simp_all add: parent_fitnesses_def contributing_parents_def contributing_indices_def)
    have n1: "?f1 \<noteq> NaN" using nonan by (simp add: fs)
    have surv: "Plus_survivor c ?t =
        (if Maximization c then (if dless ?cf ?f1 then ?p1 else ?cand)
         else (if dless ?f1 ?cf then ?p1 else ?cand))"
      using False by (simp add: Plus_survivor_def Let_def dgreater_def)
    have "(if at_least_as_good (Maximization c) ?cf ?f1
           then Plus_survivor c ?t = ?cand
           else Plus_survivor c ?t \<in> set [?p1] \<and> Fitness (Plus_survivor c ?t) ?I = ?f1) \<and>
          at_least_as_good (Maximization c) (Fitness (Plus_survivor c ?t) ?I) ?f1"
      unfolding surv using cf n1
      by (cases ?f1; cases "Maximization c") (simp_all add: at_least_as_good_def dle_def)
    then show ?thesis
      unfolding fs ps using call is_best_single by blast
  next
    case True
    have fs: "parent_fitnesses c random pC = [?f1, ?f2]"
      and ps: "contributing_parents c random pC = [?p1, ?p2]"
      using True by (simp_all add: parent_fitnesses_def contributing_parents_def contributing_indices_def)
    have n1: "?f1 \<noteq> NaN" and n2: "?f2 \<noteq> NaN" using nonan by (simp_all add: fs)
    let ?best = "if Maximization c then std_max ?f1 ?f2 else std_min ?f1 ?f2"
    have surv: "Plus_survivor c ?t =
        (if Maximization c
         then (if dless ?cf (std_max ?f1 ?f2) then (if dless ?f2 ?f1 then ?p1 else ?p2) else ?cand)
         else (if dless (std_min ?f1 ?f2) ?cf then (if dless ?f1 ?f2 then ?p1 else ?p2) else ?cand))"
      using True by (simp add: Plus_survivor_def Let_def dgreater_def)
    have "(if at_least_as_good (Maximization c) ?cf ?best
           then Plus_survivor c ?t = ?cand
           else Plus_survivor c ?t \<in> set [?p1, ?p2] \<and> Fitness (Plus_survivor c ?t) ?I = ?best) \<and>
          at_least_as_good (Maximization c) (Fitness (Plus_survivor c ?t) ?I) ?best"
      unfolding surv using cf n1 n2
      by (cases ?f1; cases ?f2; cases "Maximization c")
         (simp_all add: at_least_as_good_def dle_def std_max_def std_min_def)
    moreover have "\<forall>b. is_best (Maximization c) [?f1, ?f2] b \<longleftrightarrow> b = ?best"
      using is_best_pair [OF n1 n2] by blast
    ultimately show ?thesis
      unfolding fs ps using call by blast
  qed
qed

text \<open>
  Claim C2, amended.  In every Plus trial in which crossover or mutation is triggered by the
  two draws and the selected indices are in range, and in which the fitness of no
  contributing parent is NaN: the contributing parents (both selected parents when
  crossover was drawn, the first one otherwise) have one best fitness; the returned
  individual is the candidate (the built genotype with its evaluated fitness, replaced by
  the sentinel when not finite) when the candidate's fitness is at least as good as that
  best fitness in the active direction, and is otherwise a contributing parent, unchanged,
  whose fitness is the best one; the returned fitness is never worse than the best
  contributing parent's.
\<close>

theorem Plus_survivor_elitist:
  assumes "crossover_drawn c random pC \<or> mutation_drawn c random pM"
    and "\<forall>i \<in> set (contributing_indices c random pC). i < length (Population c)"
    and "\<forall>f \<in> set (parent_fitnesses c random pC). f \<noteq> NaN"
  shows "\<exists>best res.
          (\<forall>b. is_best (Maximization c) (parent_fitnesses c random pC) b \<longleftrightarrow> b = best) \<and>
          PlusRecombinator_call c child random pC pM =
            (Inr (Some res), finalState (Plus_built c child random pC pM)) \<and>
          (if at_least_as_good (Maximization c)
                (Fitness (Plus_offspring c child random pC pM) (SelectableIndex c)) best
           then res = Plus_offspring c child random pC pM
           else res \<in> set (contributing_parents c random pC) \<and>
                Fitness res (SelectableIndex c) = best) \<and>
          at_least_as_good (Maximization c) (Fitness res (SelectableIndex c)) best"
  using assms by (rule Plus_survivor_rule)

lemma OS_call_protocol:
  assumes "\<forall>i \<in> set (contributing_indices c random pC). i < length (Population c)"
  shows "OffspringSelectionRecombinator_call c child random pC pM =
     (if \<not> (crossover_drawn c random pC \<or> mutation_drawn c random pM)
      then (Inr None, after_draws c random)
      else (Inr (if isfinite (evaluatedFitness (OS_built c child random pC pM)) \<and>
                    better (Maximization c) (evaluatedFitness (OS_built c child random pC pM))
                      (let f1 = Fitness (Population c ! first_index c random) (SelectableIndex c);
                           f2 = Fitness (Population c ! second_index c random) (SelectableIndex c)
                       in if crossover_drawn c random pC
                          then (if Maximization c then std_max f1 f2 else std_min f1 f2)
                          else f1)
                 then Some (OS_offspring c child random pC pM) else None),
            finalState (OS_built c child random pC pM)))"
proof -
  have r1: "\<not> length (Population c) \<le> first_index c random"
    and r2: "\<not> (crossover_drawn c random pC \<and> length (Population c) \<le> second_index c random)"
    using assms by (auto simp add: contributing_indices_def not_le split: if_splits)
  have f: "Fitness (OS_offspring c child random pC pM) (SelectableIndex c)
             = evaluatedFitness (OS_built c child random pC pM)"
    by (simp add: OS_offspring_def with_fitness_def Let_def)
  show ?thesis
    using r1 r2
    by (simp only: OffspringSelectionRecombinator_call_def OS_candidate_protocol)
       (simp add: OS_accept_def f better_def dgreater_def Let_def)
qed

text \<open>
  Claim C3, amended.  In every OffspringSelection trial whose selected indices are in range
  and in which, when crossover was drawn, the fitness of neither selected parent is NaN:
  the contributing parents have one best fitness, and the call returns an offspring if and
  only if crossover or mutation was triggered by the two draws and the candidate's
  evaluated fitness is finite and strictly better, in the active direction, than that best
  fitness; the offspring is then the candidate, and in every other case the call returns no
  offspring.
\<close>

theorem OS_offspring_iff:
  assumes "\<forall>i \<in> set (contributing_indices c random pC). i < length (Population c)"
    and "crossover_drawn c random pC \<longrightarrow> (\<forall>f \<in> set (parent_fitnesses c random pC). f \<noteq> NaN)"
  shows "\<exists>best.
          (\<forall>b. is_best (Maximization c) (parent_fitnesses c random pC) b \<longleftrightarrow> b = best) \<and>
          fst (OffspringSelectionRecombinator_call c child random pC pM) =
            Inr (if (crossover_drawn c random pC \<or> mutation_drawn c random pM) \<and>
                    isfinite (evaluatedFitness (OS_built c child random pC pM)) \<and>
                    better (Maximization c) (evaluatedFitness (OS_built c child random pC pM)) best
                 then Some (OS_offspring c child random pC pM) else None)"
proof (cases "crossover_drawn c random pC")
  case False
  let ?f1 = "Fitness (Population c ! first_index c random) (SelectableIndex c)"
  have fs: "parent_fitnesses c random pC = [?f1]"
    using False by (simp add: parent_fitnesses_def contributing_parents_def contributing_indices_def)
  have "fst (OffspringSelectionRecombinator_call c child random pC pM) =
            Inr (if (crossover_drawn c random pC \<or> mutation_drawn c random pM) \<and>
                    isfinite (evaluatedFitness (OS_built c child random pC pM)) \<and>
                    better (Maximization c) (evaluatedFitness (OS_built c child random pC pM)) ?f1
                 then Some (OS_offspring c child random pC pM) else None)"
    using False by (simp add: OS_call_protocol [OF assms(1)] Let_def)
  then show ?thesis
    unfolding fs using is_best_single by blast
next
  case True
  let ?f1 = "Fitness (Population c ! first_index c random) (SelectableIndex c)"
  let ?f2 = "Fitness (Population c ! second_index c random) (SelectableIndex c)"
  let ?best = "if Maximization c then std_max ?f1 ?f2 else std_min ?f1 ?f2"
  have fs: "parent_fitnesses c random pC = [?f1, ?f2]"
    using True by (simp add: parent_fitnesses_def contributing_parents_def contributing_indices_def)
  have n: "?f1 \<noteq> NaN" "?f2 \<noteq> NaN"
    using assms(2) True by (simp_all add: fs)
  have "fst (OffspringSelectionRecombinator_call c child random pC pM) =
            Inr (if (crossover_drawn c random pC \<or> mutation_drawn c random pM) \<and>
                    isfinite (evaluatedFitness (OS_built c child random pC pM)) \<and>
                    better (Maximization c) (evaluatedFitness (OS_built c child random pC pM)) ?best
                 then Some (OS_offspring c child random pC pM) else None)"
    using True by (simp add: OS_call_protocol [OF assms(1)] Let_def)
  moreover have "\<forall>b. is_best (Maximization c) [?f1, ?f2] b \<longleftrightarrow> b = ?best"
    using is_best_pair [OF n] by blast
  ultimately show ?thesis
    unfolding fs by blast
qed

lemma better_best_sentinel:
  assumes "f \<noteq> NaN" and "b \<noteq> NaN" and "\<not> better maximize f b" and "better maximize f s"
  shows "better maximize b s"
  using assms by (cases f; cases b; cases s; cases maximize) (auto simp add: better_def)

lemma better_not_at_least: "better maximize b s \<Longrightarrow> \<not> at_least_as_good maximize s b"
  using dless_asym [of b s] dless_asym [of s b]
  by (cases maximize) (auto simp add: better_def at_least_as_good_def dle_def)

lemma better_neq: "better maximize b s \<Longrightarrow> b \<noteq> s"
  by (cases maximize) (auto simp add: better_def)

lemma parent_fitnesses_finite:
  assumes "\<forall>i \<in> set (contributing_indices c random pC). i < length (Population c)"
    and "\<forall>p \<in> set (Population c). isfinite (Fitness p (SelectableIndex c))"
    and "f \<in> set (parent_fitnesses c random pC)"
  shows "isfinite f"
proof -
  obtain i where i: "i \<in> set (contributing_indices c random pC)"
    and f: "f = Fitness (Population c ! i) (SelectableIndex c)"
    using assms(3) by (auto simp add: parent_fitnesses_def contributing_parents_def)
  have "Population c ! i \<in> set (Population c)"
    using assms(1) i by (intro nth_mem) blast
  then show ?thesis using assms(2) f by blast
qed

text \<open>
  Claim C1, amended.  When the fitness that the evaluator returns for the candidate is not
  finite, in a trial in which crossover or mutation is triggered and the selected indices
  are in range: the OffspringSelection call returns no offspring, whatever the direction and
  the parents; and the Plus call, for a population of finite fitness values in which some
  contributing parent's fitness is strictly better than the value that replaces the
  non-finite fitness (\<^verbatim>\<open>max()\<close> when minimizing, \<^verbatim>\<open>min()\<close> when maximizing), returns a
  contributing parent whose fitness is best among the contributing parents, and which is
  not the candidate.
\<close>

theorem nonfinite_candidate_loses:
  "((crossover_drawn c random pC \<or> mutation_drawn c random pM) \<and>
    (\<forall>i \<in> set (contributing_indices c random pC). i < length (Population c)) \<and>
    \<not> isfinite (evaluatedFitness (OS_built c child random pC pM))
      \<longrightarrow> OffspringSelectionRecombinator_call c child random pC pM =
            (Inr None, finalState (OS_built c child random pC pM))) \<and>
   ((crossover_drawn c random pC \<or> mutation_drawn c random pM) \<and>
    (\<forall>i \<in> set (contributing_indices c random pC). i < length (Population c)) \<and>
    \<not> isfinite (evaluatedFitness (Plus_built c child random pC pM)) \<and>
    (\<forall>p \<in> set (Population c). isfinite (Fitness p (SelectableIndex c))) \<and>
    (\<exists>f \<in> set (parent_fitnesses c random pC). better (Maximization c) f (sentinel (Maximization c)))
      \<longrightarrow> (\<exists>res. PlusRecombinator_call c child random pC pM =
                   (Inr (Some res), finalState (Plus_built c child random pC pM)) \<and>
                 res \<in> set (contributing_parents c random pC) \<and>
                 is_best (Maximization c) (parent_fitnesses c random pC)
                   (Fitness res (SelectableIndex c)) \<and>
                 res \<noteq> Plus_offspring c child random pC pM))"
proof (intro conjI impI)
  assume a: "(crossover_drawn c random pC \<or> mutation_drawn c random pM) \<and>
    (\<forall>i \<in> set (contributing_indices c random pC). i < length (Population c)) \<and>
    \<not> isfinite (evaluatedFitness (OS_built c child random pC pM))"
  then have range: "\<forall>i \<in> set (contributing_indices c random pC). i < length (Population c)"
    by blast
  have "crossover_drawn c random pC \<or> mutation_drawn c random pM"
    and "\<not> isfinite (evaluatedFitness (OS_built c child random pC pM))"
    using a by blast+
  then show "OffspringSelectionRecombinator_call c child random pC pM =
            (Inr None, finalState (OS_built c child random pC pM))"
    by (simp only: OS_call_protocol [OF range] simp_thms if_False)
next
  let ?I = "SelectableIndex c"
  let ?m = "Maximization c"
  let ?cand = "Plus_offspring c child random pC pM"
  assume a: "(crossover_drawn c random pC \<or> mutation_drawn c random pM) \<and>
    (\<forall>i \<in> set (contributing_indices c random pC). i < length (Population c)) \<and>
    \<not> isfinite (evaluatedFitness (Plus_built c child random pC pM)) \<and>
    (\<forall>p \<in> set (Population c). isfinite (Fitness p ?I)) \<and>
    (\<exists>f \<in> set (parent_fitnesses c random pC). better ?m f (sentinel ?m))"
  then have trig: "crossover_drawn c random pC \<or> mutation_drawn c random pM"
    and range: "\<forall>i \<in> set (contributing_indices c random pC). i < length (Population c)"
    and fin: "\<forall>p \<in> set (Population c). isfinite (Fitness p ?I)"
    by blast+
  have nf: "\<not> isfinite (evaluatedFitness (Plus_built c child random pC pM))"
    using a by blast
  have "\<exists>f \<in> set (parent_fitnesses c random pC). better ?m f (sentinel ?m)"
    using a by blast
  then obtain f where f: "f \<in> set (parent_fitnesses c random pC)" "better ?m f (sentinel ?m)"
    by blast
  have finite_fs: "isfinite g" if "g \<in> set (parent_fitnesses c random pC)" for g
    using range fin that by (rule parent_fitnesses_finite)
  have nonan: "\<forall>f \<in> set (parent_fitnesses c random pC). f \<noteq> NaN"
    using finite_fs isfinite_not_NaN by blast
  have cf: "Fitness ?cand ?I = sentinel ?m"
    using nf by (simp only: Plus_offspring_fitness if_False)
  obtain best res where best: "\<forall>b. is_best ?m (parent_fitnesses c random pC) b \<longleftrightarrow> b = best"
    and call: "PlusRecombinator_call c child random pC pM =
            (Inr (Some res), finalState (Plus_built c child random pC pM))"
    and rule: "if at_least_as_good ?m (Fitness ?cand ?I) best
           then res = ?cand
           else res \<in> set (contributing_parents c random pC) \<and> Fitness res ?I = best"
    using Plus_survivor_rule [OF trig range nonan] by blast
  have isb: "is_best ?m (parent_fitnesses c random pC) best"
    using best by blast
  then have bin: "best \<in> set (parent_fitnesses c random pC)" and nb: "\<not> better ?m f best"
    using f(1) by (simp_all only: is_best_def) blast+
  have "f \<noteq> NaN" "best \<noteq> NaN"
    using nonan f(1) bin by blast+
  then have bs: "better ?m best (sentinel ?m)"
    using nb f(2) by (rule better_best_sentinel)
  then have worse: "\<not> at_least_as_good ?m (sentinel ?m) best"
    by (rule better_not_at_least)
  have res: "res \<in> set (contributing_parents c random pC)" "Fitness res ?I = best"
    using rule worse unfolding cf by (simp_all only: if_False)
  have "best \<noteq> sentinel ?m"
    using bs by (rule better_neq)
  then have "res \<noteq> ?cand"
    using res(2) cf by metis
  moreover have "is_best ?m (parent_fitnesses c random pC) (Fitness res ?I)"
    using isb res(2) by simp
  ultimately have "PlusRecombinator_call c child random pC pM =
                   (Inr (Some res), finalState (Plus_built c child random pC pM)) \<and>
                 res \<in> set (contributing_parents c random pC) \<and>
                 is_best ?m (parent_fitnesses c random pC) (Fitness res ?I) \<and>
                 res \<noteq> ?cand"
    using call res(1) by blast
  then show "\<exists>res. PlusRecombinator_call c child random pC pM =
                   (Inr (Some res), finalState (Plus_built c child random pC pM)) \<and>
                 res \<in> set (contributing_parents c random pC) \<and>
                 is_best ?m (parent_fitnesses c random pC) (Fitness res ?I) \<and>
                 res \<noteq> ?cand"
    by (rule exI)
qed

subsection \<open>A concrete setting\<close>

lemma fixed_population [simp]:
  "Population (fixed_setting m [a, b] cand) =
     [\<lparr>Genotype = [1], Fitness = (\<lambda>_. a)\<rparr>, \<lparr>Genotype = [2], Fitness = (\<lambda>_. b)\<rparr>]"
  by (simp add: fixed_setting_def enumerate_eq_zip upt_rec)

lemma fixed_fields [simp]:
  "uniformReal (fixed_setting m fits cand) = (\<lambda>r. (0, Suc r))"
  "selector (fixed_setting m fits cand) = (\<lambda>r. (r - 2, Suc r))"
  "crossover (fixed_setting m fits cand) = (\<lambda>r a b. (a @ b, Suc r))"
  "mutator (fixed_setting m fits cand) = (\<lambda>r a. (0 # a, Suc r))"
  "evaluator (fixed_setting m fits cand) = (\<lambda>r i. (cand, Suc r))"
  "Maximization (fixed_setting m fits cand) = m"
  "SelectableIndex (fixed_setting m fits cand) = 0"
  by (simp_all add: fixed_setting_def)

lemma fixed_protocol [simp]:
  "crossover_drawn (fixed_setting m fits cand) r pC = dless (Num 0) pC"
  "mutation_drawn (fixed_setting m fits cand) r pM = dless (Num 0) pM"
  "after_draws (fixed_setting m fits cand) r = Suc (Suc r)"
  "first_index (fixed_setting m fits cand) r = r"
  "after_first (fixed_setting m fits cand) r = Suc (Suc (Suc r))"
  "second_index (fixed_setting m fits cand) r = Suc r"
  "after_second (fixed_setting m fits cand) r = Suc (Suc (Suc (Suc r)))"
  by (simp_all add: crossover_drawn_def mutation_drawn_def after_draws_def first_index_def
      after_first_def second_index_def after_second_def)

lemma fixed_parents:
  "contributing_indices (fixed_setting m fits cand) 0 (Num 1) = [0, 1]"
  "contributing_indices (fixed_setting m fits cand) 0 (Num 0) = [0]"
  "contributing_parents (fixed_setting m [a, b] cand) 0 (Num 1) =
     [\<lparr>Genotype = [1], Fitness = (\<lambda>_. a)\<rparr>, \<lparr>Genotype = [2], Fitness = (\<lambda>_. b)\<rparr>]"
  "contributing_parents (fixed_setting m [a, b] cand) 0 (Num 0) = [\<lparr>Genotype = [1], Fitness = (\<lambda>_. a)\<rparr>]"
  "parent_fitnesses (fixed_setting m [a, b] cand) 0 (Num 1) = [a, b]"
  "parent_fitnesses (fixed_setting m [a, b] cand) 0 (Num 0) = [a]"
  by (simp_all add: parent_fitnesses_def contributing_parents_def contributing_indices_def)

lemma fixed_built:
  "Plus_built (fixed_setting m [a, b] cand) empty_child 0 (Num 1) (Num 0) =
     \<lparr>builtGenotype = [1, 2], evaluatedFitness = cand, finalState = 6\<rparr>"
  "Plus_built (fixed_setting m [a, b] cand) empty_child 0 (Num 0) (Num 1) =
     \<lparr>builtGenotype = [0, 1], evaluatedFitness = cand, finalState = 6\<rparr>"
  "OS_built (fixed_setting m [a, b] cand) empty_child 0 (Num 1) (Num 0) =
     \<lparr>builtGenotype = [1, 2], evaluatedFitness = cand, finalState = 6\<rparr>"
  "OS_built (fixed_setting m [a, b] cand) empty_child 0 (Num 0) (Num 1) =
     \<lparr>builtGenotype = [0, 1], evaluatedFitness = cand, finalState = 5\<rparr>"
  by (simp_all add: Plus_built_def OS_built_def build_and_evaluate_def empty_child_def)

lemma fixed_offspring:
  "Plus_offspring (fixed_setting m [a, b] (Num x)) empty_child 0 (Num 1) (Num 0) =
     \<lparr>Genotype = [1, 2], Fitness = (\<lambda>_. Num 0)(0 := Num x)\<rparr>"
  "Plus_offspring (fixed_setting m [a, b] (Num x)) empty_child 0 (Num 0) (Num 1) =
     \<lparr>Genotype = [0, 1], Fitness = (\<lambda>_. Num 0)(0 := Num x)\<rparr>"
  "Plus_offspring (fixed_setting m [a, b] NaN) empty_child 0 (Num 1) (Num 0) =
     \<lparr>Genotype = [1, 2], Fitness = (\<lambda>_. Num 0)(0 := sentinel m)\<rparr>"
  "OS_offspring (fixed_setting m [a, b] cand) empty_child 0 (Num 1) (Num 0) =
     \<lparr>Genotype = [1, 2], Fitness = (\<lambda>_. Num 0)(0 := cand)\<rparr>"
  "OS_offspring (fixed_setting m [a, b] cand) empty_child 0 (Num 0) (Num 1) =
     \<lparr>Genotype = [0, 1], Fitness = (\<lambda>_. Num 0)(0 := cand)\<rparr>"
  by (simp_all only: Plus_offspring_def OS_offspring_def fixed_built Let_def)
     (simp_all add: with_fitness_def empty_child_def)

text \<open>
  Claim C2 at the scenario of the specification: minimization, crossover of the parents
  with fitness 5 and 7, a candidate evaluating to 9; the returned individual is the parent
  with fitness 5.  And at a trial that only mutates the first parent, of fitness 7, into a
  candidate evaluating to 6, while the individual selected second has fitness 5: the
  candidate is returned.
\<close>

theorem Plus_survivor_elitist_witness:
  "PlusRecombinator_call (fixed_setting False [Num 5, Num 7] (Num 9)) empty_child 0 (Num 1) (Num 0) =
     (Inr (Some \<lparr>Genotype = [1], Fitness = (\<lambda>_. Num 5)\<rparr>), 6) \<and>
   PlusRecombinator_call (fixed_setting False [Num 7, Num 5] (Num 6)) empty_child 0 (Num 0) (Num 1) =
     (Inr (Some \<lparr>Genotype = [0, 1], Fitness = (\<lambda>_. Num 0)(0 := Num 6)\<rparr>), 6)"
proof
  let ?c = "fixed_setting False [Num 5, Num 7] (Num 9)"
  have t: "crossover_drawn ?c 0 (Num 1) \<or> mutation_drawn ?c 0 (Num 0)"
    by simp
  have r: "\<forall>i \<in> set (contributing_indices ?c 0 (Num 1)). i < length (Population ?c)"
    by (simp add: fixed_parents)
  have n: "\<forall>f \<in> set (parent_fitnesses ?c 0 (Num 1)). f \<noteq> NaN"
    by (simp add: fixed_parents)
  have "\<exists>best res.
      (\<forall>b. is_best False [Num 5, Num 7] b \<longleftrightarrow> b = best) \<and>
      PlusRecombinator_call ?c empty_child 0 (Num 1) (Num 0) = (Inr (Some res), 6) \<and>
      (if at_least_as_good False (Num 9) best
       then res = \<lparr>Genotype = [1, 2], Fitness = (\<lambda>_. Num 0)(0 := Num 9)\<rparr>
       else res \<in> set [\<lparr>Genotype = [1], Fitness = (\<lambda>_. Num 5)\<rparr>,
                       \<lparr>Genotype = [2], Fitness = (\<lambda>_. Num 7)\<rparr>] \<and> Fitness res 0 = best) \<and>
      at_least_as_good False (Fitness res 0) best"
    using Plus_survivor_elitist [OF t r n, where child = empty_child]
    by (simp only: fixed_parents fixed_built fixed_offspring fixed_fields Built.simps
        Individual.simps fun_upd_same)
  then obtain best res where best: "\<forall>b. is_best False [Num 5, Num 7] b \<longleftrightarrow> b = best"
    and call: "PlusRecombinator_call ?c empty_child 0 (Num 1) (Num 0) = (Inr (Some res), 6)"
    and rule: "if at_least_as_good False (Num 9) best
       then res = \<lparr>Genotype = [1, 2], Fitness = (\<lambda>_. Num 0)(0 := Num 9)\<rparr>
       else res \<in> set [\<lparr>Genotype = [1], Fitness = (\<lambda>_. Num 5)\<rparr>,
                       \<lparr>Genotype = [2], Fitness = (\<lambda>_. Num 7)\<rparr>] \<and> Fitness res 0 = best"
    by blast
  have "is_best False [Num 5, Num 7] (Num 5)"
    by (simp add: is_best_def better_def)
  then have b5: "best = Num 5" using best by simp
  have "res = \<lparr>Genotype = [1], Fitness = (\<lambda>_. Num 5)\<rparr>"
    using rule unfolding b5 by (simp add: at_least_as_good_def dle_def) auto
  then show "PlusRecombinator_call ?c empty_child 0 (Num 1) (Num 0) =
     (Inr (Some \<lparr>Genotype = [1], Fitness = (\<lambda>_. Num 5)\<rparr>), 6)"
    using call by simp
next
  let ?c = "fixed_setting False [Num 7, Num 5] (Num 6)"
  have t: "crossover_drawn ?c 0 (Num 0) \<or> mutation_drawn ?c 0 (Num 1)"
    by simp
  have r: "\<forall>i \<in> set (contributing_indices ?c 0 (Num 0)). i < length (Population ?c)"
    by (simp add: fixed_parents)
  have n: "\<forall>f \<in> set (parent_fitnesses ?c 0 (Num 0)). f \<noteq> NaN"
    by (simp add: fixed_parents)
  have "\<exists>best res.
      (\<forall>b. is_best False [Num 7] b \<longleftrightarrow> b = best) \<and>
      PlusRecombinator_call ?c empty_child 0 (Num 0) (Num 1) = (Inr (Some res), 6) \<and>
      (if at_least_as_good False (Num 6) best
       then res = \<lparr>Genotype = [0, 1], Fitness = (\<lambda>_. Num 0)(0 := Num 6)\<rparr>
       else res \<in> set [\<lparr>Genotype = [1], Fitness = (\<lambda>_. Num 7)\<rparr>] \<and> Fitness res 0 = best) \<and>
      at_least_as_good False (Fitness res 0) best"
    using Plus_survivor_elitist [OF t r n, where child = empty_child]
    by (simp only: fixed_parents fixed_built fixed_offspring fixed_fields Built.simps
        Individual.simps fun_upd_same)
  then obtain best res where best: "\<forall>b. is_best False [Num 7] b \<longleftrightarrow> b = best"
    and call: "PlusRecombinator_call ?c empty_child 0 (Num 0) (Num 1) = (Inr (Some res), 6)"
    and rule: "if at_least_as_good False (Num 6) best
       then res = \<lparr>Genotype = [0, 1], Fitness = (\<lambda>_. Num 0)(0 := Num 6)\<rparr>
       else res \<in> set [\<lparr>Genotype = [1], Fitness = (\<lambda>_. Num 7)\<rparr>] \<and> Fitness res 0 = best"
    by blast
  have "is_best False [Num 7] (Num 7)"
    by (simp add: is_best_def better_def)
  then have b7: "best = Num 7" using best by simp
  have "res = \<lparr>Genotype = [0, 1], Fitness = (\<lambda>_. Num 0)(0 := Num 6)\<rparr>"
    using rule unfolding b7 by (simp add: at_least_as_good_def dle_def)
  then show "PlusRecombinator_call ?c empty_child 0 (Num 0) (Num 1) =
     (Inr (Some \<lparr>Genotype = [0, 1], Fitness = (\<lambda>_. Num 0)(0 := Num 6)\<rparr>), 6)"
    using call by simp
qed

text \<open>
  Claim C2 as stated fails when a parent's fitness is NaN: under minimization with parents
  5 and NaN and a candidate evaluating to 9, the call returns the parent whose fitness is NaN,
  which is neither the candidate nor the best contributing parent.
\<close>

theorem Plus_NaN_parent_counterexample:
  "PlusRecombinator_call (fixed_setting False [Num 5, NaN] (Num 9)) empty_child 0 (Num 1) (Num 0) =
     (Inr (Some \<lparr>Genotype = [2], Fitness = (\<lambda>_. NaN)\<rparr>), 6) \<and>
   \<not> at_least_as_good False NaN (Num 5)"
  by (simp add: PlusRecombinator_call_def Plus_candidate_def Plus_survivor_def empty_child_def
      std_min_def dgreater_def at_least_as_good_def dle_def)

text \<open>
  Claim C3 at two trials under minimization: the crossover of the parents with fitness 5
  and 7 with a candidate evaluating to 3, which is returned; and a trial that only mutates
  the first parent, of fitness 7, into a candidate evaluating to 6, while the individual
  that a second selection would return has fitness 5: the candidate is returned.
\<close>

theorem OS_offspring_iff_witness:
  "fst (OffspringSelectionRecombinator_call (fixed_setting False [Num 5, Num 7] (Num 3))
          empty_child 0 (Num 1) (Num 0)) =
     Inr (Some \<lparr>Genotype = [1, 2], Fitness = (\<lambda>_. Num 0)(0 := Num 3)\<rparr>) \<and>
   fst (OffspringSelectionRecombinator_call (fixed_setting False [Num 7, Num 5] (Num 6))
          empty_child 0 (Num 0) (Num 1)) =
     Inr (Some \<lparr>Genotype = [0, 1], Fitness = (\<lambda>_. Num 0)(0 := Num 6)\<rparr>)"
proof
  let ?c = "fixed_setting False [Num 5, Num 7] (Num 3)"
  have r: "\<forall>i \<in> set (contributing_indices ?c 0 (Num 1)). i < length (Population ?c)"
    by (simp add: fixed_parents)
  have n: "crossover_drawn ?c 0 (Num 1) \<longrightarrow> (\<forall>f \<in> set (parent_fitnesses ?c 0 (Num 1)). f \<noteq> NaN)"
    by (simp add: fixed_parents)
  have "\<exists>best.
      (\<forall>b. is_best False [Num 5, Num 7] b \<longleftrightarrow> b = best) \<and>
      fst (OffspringSelectionRecombinator_call ?c empty_child 0 (Num 1) (Num 0)) =
        Inr (if better False (Num 3) best
             then Some \<lparr>Genotype = [1, 2], Fitness = (\<lambda>_. Num 0)(0 := Num 3)\<rparr> else None)"
    using OS_offspring_iff [OF r n, where child = empty_child and pM = "Num 0"]
    by (simp add: fixed_parents fixed_built fixed_offspring cong: if_cong)
  then obtain best where best: "\<forall>b. is_best False [Num 5, Num 7] b \<longleftrightarrow> b = best"
    and call: "fst (OffspringSelectionRecombinator_call ?c empty_child 0 (Num 1) (Num 0)) =
        Inr (if better False (Num 3) best
             then Some \<lparr>Genotype = [1, 2], Fitness = (\<lambda>_. Num 0)(0 := Num 3)\<rparr> else None)"
    by blast
  have "is_best False [Num 5, Num 7] (Num 5)"
    by (simp add: is_best_def better_def)
  then have b5: "best = Num 5" using best by simp
  show "fst (OffspringSelectionRecombinator_call ?c empty_child 0 (Num 1) (Num 0)) =
     Inr (Some \<lparr>Genotype = [1, 2], Fitness = (\<lambda>_. Num 0)(0 := Num 3)\<rparr>)"
    using call unfolding b5 by (simp add: better_def)
next
  let ?c = "fixed_setting False [Num 7, Num 5] (Num 6)"
  have r: "\<forall>i \<in> set (contributing_indices ?c 0 (Num 0)). i < length (Population ?c)"
    by (simp add: fixed_parents)
  have n: "crossover_drawn ?c 0 (Num 0) \<longrightarrow> (\<forall>f \<in> set (parent_fitnesses ?c 0 (Num 0)). f \<noteq> NaN)"
    by (simp add: fixed_parents)
  have "\<exists>best.
      (\<forall>b. is_best False [Num 7] b \<longleftrightarrow> b = best) \<and>
      fst (OffspringSelectionRecombinator_call ?c empty_child 0 (Num 0) (Num 1)) =
        Inr (if better False (Num 6) best
             then Some \<lparr>Genotype = [0, 1], Fitness = (\<lambda>_. Num 0)(0 := Num 6)\<rparr> else None)"
    using OS_offspring_iff [OF r n, where child = empty_child and pM = "Num 1"]
    by (simp add: fixed_parents fixed_built fixed_offspring cong: if_cong)
  then obtain best where best: "\<forall>b. is_best False [Num 7] b \<longleftrightarrow> b = best"
    and call: "fst (OffspringSelectionRecombinator_call ?c empty_child 0 (Num 0) (Num 1)) =
        Inr (if better False (Num 6) best
             then Some \<lparr>Genotype = [0, 1], Fitness = (\<lambda>_. Num 0)(0 := Num 6)\<rparr> else None)"
    by blast
  have "is_best False [Num 7] (Num 7)"
    by (simp add: is_best_def better_def)
  then have b7: "best = Num 7" using best by simp
  show "fst (OffspringSelectionRecombinator_call ?c empty_child 0 (Num 0) (Num 1)) =
     Inr (Some \<lparr>Genotype = [0, 1], Fitness = (\<lambda>_. Num 0)(0 := Num 6)\<rparr>)"
    using call unfolding b7 by (simp add: better_def)
qed

text \<open>
  Claim C3 as stated fails when the fitness of a selected parent is NaN: under minimization,
  the crossover of the same two parents, of fitness 5 and NaN, with the same candidate
  evaluating to 3 returns no offspring when the parent of fitness NaN is selected first
  (\<^verbatim>\<open>std::min(NaN, 5)\<close> is NaN) and returns the candidate when it is selected second
  (\<^verbatim>\<open>std::min(5, NaN)\<close> is 5), so the outcome is not a function of the better of the two
  parents' fitness values, whichever of 5 and NaN that is.
\<close>

theorem OS_NaN_parent_counterexample:
  "fst (OffspringSelectionRecombinator_call (fixed_setting False [NaN, Num 5] (Num 3))
          empty_child 0 (Num 1) (Num 0)) = Inr None \<and>
   fst (OffspringSelectionRecombinator_call (fixed_setting False [Num 5, NaN] (Num 3))
          empty_child 0 (Num 1) (Num 0)) =
     Inr (Some \<lparr>Genotype = [1, 2], Fitness = (\<lambda>_. Num 0)(0 := Num 3)\<rparr>) \<and>
   parent_fitnesses (fixed_setting False [NaN, Num 5] (Num 3)) 0 (Num 1) = [NaN, Num 5] \<and>
   parent_fitnesses (fixed_setting False [Num 5, NaN] (Num 3)) 0 (Num 1) = [Num 5, NaN] \<and>
   crossover_drawn (fixed_setting False [NaN, Num 5] (Num 3)) 0 (Num 1) \<and>
   crossover_drawn (fixed_setting False [Num 5, NaN] (Num 3)) 0 (Num 1) \<and>
   isfinite (Num 3) \<and> better False (Num 3) (Num 5) \<and> \<not> better False (Num 3) NaN"
  by (simp add: OffspringSelectionRecombinator_call_def OS_candidate_def OS_accept_def
      empty_child_def std_min_def dgreater_def better_def fixed_parents)

text \<open>
  Claim C1, amended, at a crossover with a candidate that evaluates to NaN: in the
  OffspringSelection recombinator under maximization with parents of fitness \<open>-1\<close> and
  \<open>-2\<close>, and in the Plus recombinator with parents of fitness 5 and 7 under minimization
  and under maximization.
\<close>

theorem nonfinite_candidate_loses_witness:
  "OffspringSelectionRecombinator_call (fixed_setting True [Num (- 1), Num (- 2)] NaN)
      empty_child 0 (Num 1) (Num 0) = (Inr None, 6) \<and>
   PlusRecombinator_call (fixed_setting False [Num 5, Num 7] NaN) empty_child 0 (Num 1) (Num 0) =
     (Inr (Some \<lparr>Genotype = [1], Fitness = (\<lambda>_. Num 5)\<rparr>), 6) \<and>
   PlusRecombinator_call (fixed_setting True [Num 5, Num 7] NaN) empty_child 0 (Num 1) (Num 0) =
     (Inr (Some \<lparr>Genotype = [2], Fitness = (\<lambda>_. Num 7)\<rparr>), 6)"
proof (intro conjI)
  let ?c = "fixed_setting True [Num (- 1), Num (- 2)] NaN"
  have h: "(crossover_drawn ?c 0 (Num 1) \<or> mutation_drawn ?c 0 (Num 0)) \<and>
      (\<forall>i \<in> set (contributing_indices ?c 0 (Num 1)). i < length (Population ?c)) \<and>
      \<not> isfinite (evaluatedFitness (OS_built ?c empty_child 0 (Num 1) (Num 0)))"
    by (simp add: fixed_parents fixed_built)
  from nonfinite_candidate_loses [where c = ?c and child = empty_child and random = 0
      and pC = "Num 1" and pM = "Num 0", THEN conjunct1, rule_format, OF h]
  show "OffspringSelectionRecombinator_call ?c empty_child 0 (Num 1) (Num 0) = (Inr None, 6)"
    by (simp add: fixed_built)
next
  let ?c = "fixed_setting False [Num 5, Num 7] NaN"
  have h: "(crossover_drawn ?c 0 (Num 1) \<or> mutation_drawn ?c 0 (Num 0)) \<and>
      (\<forall>i \<in> set (contributing_indices ?c 0 (Num 1)). i < length (Population ?c)) \<and>
      \<not> isfinite (evaluatedFitness (Plus_built ?c empty_child 0 (Num 1) (Num 0))) \<and>
      (\<forall>p \<in> set (Population ?c). isfinite (Fitness p (SelectableIndex ?c))) \<and>
      (\<exists>f \<in> set (parent_fitnesses ?c 0 (Num 1)). better (Maximization ?c) f (sentinel (Maximization ?c)))"
    by (simp add: fixed_parents fixed_built better_def sentinel_def numeric_limits_max_def)
  from nonfinite_candidate_loses [where c = ?c and child = empty_child and random = 0
      and pC = "Num 1" and pM = "Num 0", THEN conjunct2, rule_format, OF h]
  have "\<exists>res. PlusRecombinator_call ?c empty_child 0 (Num 1) (Num 0) = (Inr (Some res), 6) \<and>
      res \<in> set [\<lparr>Genotype = [1], Fitness = (\<lambda>_. Num 5)\<rparr>, \<lparr>Genotype = [2], Fitness = (\<lambda>_. Num 7)\<rparr>] \<and>
      is_best False [Num 5, Num 7] (Fitness res 0)"
    by (simp add: fixed_parents fixed_built) blast
  then obtain res where call: "PlusRecombinator_call ?c empty_child 0 (Num 1) (Num 0) = (Inr (Some res), 6)"
    and res: "res \<in> set [\<lparr>Genotype = [1], Fitness = (\<lambda>_. Num 5)\<rparr>, \<lparr>Genotype = [2], Fitness = (\<lambda>_. Num 7)\<rparr>]"
    and isb: "is_best False [Num 5, Num 7] (Fitness res 0)"
    by blast
  have "res = \<lparr>Genotype = [1], Fitness = (\<lambda>_. Num 5)\<rparr>"
    using res isb by (auto simp add: is_best_def better_def)
  then show "PlusRecombinator_call ?c empty_child 0 (Num 1) (Num 0) =
     (Inr (Some \<lparr>Genotype = [1], Fitness = (\<lambda>_. Num 5)\<rparr>), 6)"
    using call by simp
next
  let ?c = "fixed_setting True [Num 5, Num 7] NaN"
  have h: "(crossover_drawn ?c 0 (Num 1) \<or> mutation_drawn ?c 0 (Num 0)) \<and>
      (\<forall>i \<in> set (contributing_indices ?c 0 (Num 1)). i < length (Population ?c)) \<and>
      \<not> isfinite (evaluatedFitness (Plus_built ?c empty_child 0 (Num 1) (Num 0))) \<and>
      (\<forall>p \<in> set (Population ?c). isfinite (Fitness p (SelectableIndex ?c))) \<and>
      (\<exists>f \<in> set (parent_fitnesses ?c 0 (Num 1)). better (Maximization ?c) f (sentinel (Maximization ?c)))"
    by (simp add: fixed_parents fixed_built better_def sentinel_def numeric_limits_min_def)
  from nonfinite_candidate_loses [where c = ?c and child = empty_child and random = 0
      and pC = "Num 1" and pM = "Num 0", THEN conjunct2, rule_format, OF h]
  have "\<exists>res. PlusRecombinator_call ?c empty_child 0 (Num 1) (Num 0) = (Inr (Some res), 6) \<and>
      res \<in> set [\<lparr>Genotype = [1], Fitness = (\<lambda>_. Num 5)\<rparr>, \<lparr>Genotype = [2], Fitness = (\<lambda>_. Num 7)\<rparr>] \<and>
      is_best True [Num 5, Num 7] (Fitness res 0)"
    by (simp add: fixed_parents fixed_built) blast
  then obtain res where call: "PlusRecombinator_call ?c empty_child 0 (Num 1) (Num 0) = (Inr (Some res), 6)"
    and res: "res \<in> set [\<lparr>Genotype = [1], Fitness = (\<lambda>_. Num 5)\<rparr>, \<lparr>Genotype = [2], Fitness = (\<lambda>_. Num 7)\<rparr>]"
    and isb: "is_best True [Num 5, Num 7] (Fitness res 0)"
    by blast
  have "res = \<lparr>Genotype = [2], Fitness = (\<lambda>_. Num 7)\<rparr>"
    using res isb by (auto simp add: is_best_def better_def)
  then show "PlusRecombinator_call ?c empty_child 0 (Num 1) (Num 0) =
     (Inr (Some \<lparr>Genotype = [2], Fitness = (\<lambda>_. Num 7)\<rparr>), 6)"
    using call by simp
qed

text \<open>
  Claim C1 as stated fails under minimization when both parents have the largest finite
  fitness: the NaN candidate is clamped to the same value, ties with the parents, and is
  returned.
\<close>

theorem Plus_nonfinite_tie_counterexample:
  "Population (fixed_setting False [numeric_limits_max, numeric_limits_max] NaN) =
     [\<lparr>Genotype = [1], Fitness = (\<lambda>_. numeric_limits_max)\<rparr>,
      \<lparr>Genotype = [2], Fitness = (\<lambda>_. numeric_limits_max)\<rparr>] \<and>
   isfinite numeric_limits_max \<and>
   \<not> isfinite NaN \<and>
   PlusRecombinator_call (fixed_setting False [numeric_limits_max, numeric_limits_max] NaN)
      empty_child 0 (Num 1) (Num 0) =
     (Inr (Some \<lparr>Genotype = [1, 2], Fitness = (\<lambda>_. Num 0)(0 := numeric_limits_max)\<rparr>), 6) \<and>
   \<lparr>Genotype = [1, 2], Fitness = (\<lambda>_. Num 0)(0 := numeric_limits_max)\<rparr>
     \<notin> set (Population (fixed_setting False [numeric_limits_max, numeric_limits_max] NaN))"
  by (simp add: PlusRecombinator_call_def Plus_candidate_def Plus_survivor_def empty_child_def
      std_min_def dgreater_def numeric_limits_max_def)

text \<open>
  Claim C6 at a failing input.  Under maximization, a parent of fitness \<open>-1\<close> and a candidate
  evaluating to NaN: the candidate's fitness is replaced by \<^verbatim>\<open>numeric_limits<double>::min()\<close>,
  the smallest positive normal value, which is strictly better than the representable
  fitness \<open>-1\<close> and than \<^verbatim>\<open>lowest()\<close>; the candidate is returned in place of its parent.
\<close>

theorem Plus_clamp_maximization_not_lowest:
  "PlusRecombinator_call (fixed_setting True [Num (- 1), Num (- 2)] NaN) empty_child 0 (Num 0) (Num 1) =
     (Inr (Some \<lparr>Genotype = [0, 1], Fitness = (\<lambda>_. Num 0)(0 := numeric_limits_min)\<rparr>), 6) \<and>
   in_double_range (Num (- 1)) \<and>
   better True numeric_limits_min (Num (- 1)) \<and>
   better True numeric_limits_min numeric_limits_lowest"
  by (simp add: PlusRecombinator_call_def Plus_candidate_def Plus_survivor_def empty_child_def
      dgreater_def numeric_limits_min_def numeric_limits_lowest_def in_double_range_def better_def)

section \<open>Properties of rounding and of the selection pressure\<close>

lemma rne_of_int [simp]: "rne (of_int m) = m"
  by (simp add: rne_def)

lemma rne_error: "\<bar>of_int (rne x) - x\<bar> \<le> 1 / 2"
  unfolding rne_def Let_def by (auto simp: abs_if) linarith+

lemma rne_nonneg: "0 \<le> x \<Longrightarrow> 0 \<le> rne x"
  unfolding rne_def Let_def by (auto simp: ) 

lemma two_powr_floor_log_le:
  assumes "x \<noteq> 0"
  shows "2 powr (of_int \<lfloor>log 2 \<bar>x\<bar>\<rfloor>) \<le> \<bar>x\<bar>"
proof -
  have "2 powr (of_int \<lfloor>log 2 \<bar>x\<bar>\<rfloor>) \<le> 2 powr (log 2 \<bar>x\<bar>)"
    by (rule powr_mono) simp_all
  also have "\<dots> = \<bar>x\<bar>" using assms by simp
  finally show ?thesis .
qed

lemma round_ne_error: "\<bar>round_ne p x - x\<bar> \<le> \<bar>x\<bar> / 2 ^ p"
proof (cases "x = 0")
  case True
  then show ?thesis by (simp add: round_ne_def)
next
  case False
  define e where "e = \<lfloor>log 2 \<bar>x\<bar>\<rfloor> - int p + 1"
  define E where "E = 2 powr (of_int e :: real)"
  have Epos: "0 < E" by (simp add: E_def)
  have r: "round_ne p x = of_int (rne (x / E)) * E"
    using False by (simp add: round_ne_def e_def E_def Let_def)
  have "round_ne p x - x = (of_int (rne (x / E)) - x / E) * E"
    using Epos by (simp add: r left_diff_distrib)
  then have "\<bar>round_ne p x - x\<bar> = \<bar>of_int (rne (x / E)) - x / E\<bar> * E"
    using Epos by (simp add: abs_mult)
  also have "\<dots> \<le> (1 / 2) * E"
    using rne_error [of "x / E"] Epos by (intro mult_right_mono) simp_all
  also have "E = 2 powr (of_int \<lfloor>log 2 \<bar>x\<bar>\<rfloor>) * 2 powr (1 - real p)"
    by (simp add: E_def e_def powr_add [symmetric] algebra_simps)
  also have "(1 / 2) * (2 powr (of_int \<lfloor>log 2 \<bar>x\<bar>\<rfloor>) * 2 powr (1 - real p)) =
             2 powr (of_int \<lfloor>log 2 \<bar>x\<bar>\<rfloor>) / 2 ^ p"
    by (simp add: powr_diff powr_realpow)
  also have "\<dots> \<le> \<bar>x\<bar> / 2 ^ p"
    using two_powr_floor_log_le [OF False] by (simp add: divide_right_mono)
  finally show ?thesis .
qed

lemma round_ne_nonneg: "0 \<le> x \<Longrightarrow> 0 \<le> round_ne p x"
  by (simp add: round_ne_def Let_def rne_nonneg)

lemma round_ne_exact:
  assumes "\<bar>m\<bar> < 2 ^ p"
  shows "round_ne p (of_int m * 2 powr (of_int j)) = of_int m * 2 powr (of_int j)"
proof (cases "m = 0")
  case True
  then show ?thesis by (simp add: round_ne_def)
next
  case False
  define x :: real where "x = of_int m * 2 powr (of_int j)"
  have x0: "x \<noteq> 0" using False by (simp add: x_def)
  define e where "e = \<lfloor>log 2 \<bar>x\<bar>\<rfloor> - int p + 1"
  have "\<bar>x\<bar> = of_int \<bar>m\<bar> * 2 powr (of_int j)"
    by (simp add: x_def abs_mult)
  also have "\<dots> < 2 ^ p * 2 powr (of_int j)"
  proof -
    have "(of_int \<bar>m\<bar> :: real) < of_int (2 ^ p)"
      using assms by (simp only: of_int_less_iff)
    then show ?thesis by simp
  qed
  also have "\<dots> = 2 powr (of_int (int p + j))"
    by (simp add: powr_add powr_realpow)
  finally have "log 2 \<bar>x\<bar> < of_int (int p + j)"
    using x0 by (simp add: log_less_iff del: of_int_add)
  then have "\<lfloor>log 2 \<bar>x\<bar>\<rfloor> < int p + j"
    by (simp add: floor_less_iff del: of_int_add)
  then have ej: "e \<le> j" by (simp add: e_def)
  have "x / 2 powr (of_int e) = of_int m * 2 powr (of_int (j - e))"
    by (simp add: x_def powr_diff)
  also have "2 powr (of_int (j - e)) = (2::real) ^ nat (j - e)"
    using ej by (simp add: powr_realpow [symmetric])
  also have "of_int m * (2::real) ^ nat (j - e) = of_int (m * 2 ^ nat (j - e))"
    by simp
  finally have "rne (x / 2 powr (of_int e)) = m * 2 ^ nat (j - e)"
    by (simp only: rne_of_int)
  then have "round_ne p x = of_int (m * 2 ^ nat (j - e)) * 2 powr (of_int e)"
    using x0 by (simp add: round_ne_def e_def Let_def)
  also have "\<dots> = of_int m * (2 powr (of_int (j - e)) * 2 powr (of_int e))"
    using ej by (simp add: powr_realpow [symmetric])
  also have "\<dots> = x"
    by (simp add: x_def powr_add [symmetric])
  finally show ?thesis by (simp add: x_def)
qed

lemma round_ne_nat: "n < 2 ^ p \<Longrightarrow> round_ne p (real n) = real n"
  using round_ne_exact [of "int n" p 0] by (simp add: of_nat_less_numeral_power_cancel_iff flip: of_nat_power)

lemma size_t_sub_consumed:
  assumes "a < 2 ^ 64" "k < 2 ^ 64"
  shows "size_t_sub ((a + k) mod 2 ^ 64) a = k"
proof -
  have "size_t_sub ((a + k) mod 2 ^ 64) a = ((a + k) mod 2 ^ 64 + (2 ^ 64 - a)) mod 2 ^ 64"
    using assms by (simp add: size_t_sub_def)
  also have "\<dots> = ((a + k) + (2 ^ 64 - a)) mod 2 ^ 64"
    by (simp add: mod_add_left_eq)
  also have "(a + k) + (2 ^ 64 - a) = k + 2 ^ 64"
    using assms by simp
  finally show ?thesis using assms by simp
qed

lemma double_quotient_close:
  assumes k: "k < 2 ^ 53" and n: "0 < n" "n < 2 ^ 53"
  shows "double_div (size_t_to_double k) (size_t_to_double n) = round_ne 53 (real k / real n)"
    and "\<bar>round_ne 53 (real k / real n) - real k / real n\<bar> \<le> (real k / real n) / 2 ^ 53"
    and "0 < k \<Longrightarrow> \<bar>round_ne 53 (real k / real n) - real k / real n\<bar> < 1 / real n"
proof -
  show "double_div (size_t_to_double k) (size_t_to_double n) = round_ne 53 (real k / real n)"
    using k n by (simp add: double_div_def size_t_to_double_def round_ne_nat)
  show e: "\<bar>round_ne 53 (real k / real n) - real k / real n\<bar> \<le> (real k / real n) / 2 ^ 53"
    using round_ne_error [of 53 "real k / real n"] by simp
  assume "0 < k"
  have "real k < 2 ^ 53" using k by (simp add: of_nat_less_numeral_power_cancel_iff)
  then have "(real k / real n) / 2 ^ 53 < 1 / real n"
    using n by (simp add: field_simps)
  with e show "\<bar>round_ne 53 (real k / real n) - real k / real n\<bar> < 1 / real n"
    by linarith
qed

lemma double_quotient_exceeds_iff:
  assumes k: "k < 2 ^ 53" and n: "0 < n" "n < 2 ^ 53" and m: "m < 2 ^ 53"
  shows "size_t_to_double m < double_div (size_t_to_double k) (size_t_to_double n)
           \<longleftrightarrow> real m < real k / real n"
proof -
  let ?q = "real k / real n"
  let ?r = "round_ne 53 ?q"
  have dm: "size_t_to_double m = real m"
    using m by (simp add: size_t_to_double_def round_ne_nat)
  have dq: "double_div (size_t_to_double k) (size_t_to_double n) = ?r"
    using double_quotient_close(1) [OF k n] .
  have npos: "0 < real n" using n by simp
  show ?thesis
  proof (cases "k = 0")
    case True
    then have "?r = 0" by (simp add: round_ne_def)
    then show ?thesis unfolding dm dq using True by simp
  next
    case False
    then have err: "\<bar>?r - ?q\<bar> < 1 / real n"
      using double_quotient_close(3) [OF k n] by simp
    consider "m * n < k" | "m * n = k" | "k < m * n" by linarith
    then show ?thesis
    proof cases
      case 1
      then have "m * n + 1 \<le> k" by simp
      then have "real (m * n + 1) \<le> real k" by (simp only: of_nat_le_iff)
      then have "(real m * real n + 1) / real n \<le> ?q"
        using npos by (intro divide_right_mono) simp_all
      moreover have "(real m * real n + 1) / real n = real m + 1 / real n"
        using npos by (simp add: add_divide_distrib)
      ultimately have "real m + 1 / real n \<le> ?q" by simp
      with err show ?thesis unfolding dm dq by linarith
    next
      case 2
      then have "real k = real m * real n" by (simp flip: of_nat_mult)
      then have q: "?q = real m" using npos by simp
      have "?r = real m" unfolding q using m by (simp add: round_ne_nat)
      then show ?thesis by (simp add: dm dq q)
    next
      case 3
      then have "k + 1 \<le> m * n" by simp
      then have "real (k + 1) \<le> real (m * n)" by (simp only: of_nat_le_iff)
      then have "(real k + 1) / real n \<le> (real m * real n) / real n"
        using npos by (intro divide_right_mono) simp_all
      moreover have "(real k + 1) / real n = ?q + 1 / real n"
        by (simp add: add_divide_distrib)
      ultimately have "?q + 1 / real n \<le> real m"
        using npos by simp
      with err show ?thesis unfolding dm dq by linarith
    qed
  qed
qed

text \<open>
  Claim C4.  After \<^verbatim>\<open>Prepare(population)\<close> has recorded the evaluator's counter and \<open>k\<close>
  further evaluations have been counted (the counter may wrap), \<^verbatim>\<open>SelectionPressure()\<close> is the
  \<^verbatim>\<open>double\<close> quotient of \<open>k\<close> and the population size, and \<^verbatim>\<open>Terminate()\<close> is true
  once it exceeds \<^verbatim>\<open>MaxSelectionPressure\<close>.  For counts below \<open>2\<^sup>5\<^sup>3\<close>, which \<^verbatim>\<open>double\<close>
  holds exactly, that quotient is the real quotient rounded to nearest, within a relative
  error of \<open>2\<^sup>-\<^sup>5\<^sup>3\<close>, and the selection-pressure condition holds exactly when the real
  quotient exceeds \<^verbatim>\<open>MaxSelectionPressure\<close>.
\<close>

theorem SelectionPressure_after_Prepare:
  assumes "pop \<noteq> []" and "FitnessEvaluations s < 2 ^ 64" and "k < 2 ^ 64"
    and "s' = evaluations_consumed k (Prepare pop s)"
  shows "SelectionPressure s' =
           Num (double_div (size_t_to_double k) (size_t_to_double (length pop))) \<and>
         (dgreater (SelectionPressure s') (Num (size_t_to_double (maxSelectionPressure s')))
            \<longrightarrow> Terminate s') \<and>
         (k < 2 ^ 53 \<and> length pop < 2 ^ 53 \<and> maxSelectionPressure s' < 2 ^ 53 \<longrightarrow>
            SelectionPressure s' = Num (round_ne 53 (real k / real (length pop))) \<and>
            \<bar>round_ne 53 (real k / real (length pop)) - real k / real (length pop)\<bar>
               \<le> (real k / real (length pop)) / 2 ^ 53 \<and>
            (Terminate s' \<longleftrightarrow>
               BaseTerminate s' \<or> real (maxSelectionPressure s') < real k / real (length pop)))"
proof -
  have sp: "SelectionPressure s' =
           Num (double_div (size_t_to_double k) (size_t_to_double (length pop)))"
    using assms(1,4) size_t_sub_consumed [OF assms(2,3)]
    by (simp add: SelectionPressure_def evaluations_consumed_def Prepare_def)
  have n: "0 < length pop" using assms(1) by simp
  show ?thesis
  proof (intro conjI impI)
    show "SelectionPressure s' =
           Num (double_div (size_t_to_double k) (size_t_to_double (length pop)))"
      by (rule sp)
    show "Terminate s'"
      if "dgreater (SelectionPressure s') (Num (size_t_to_double (maxSelectionPressure s')))"
      using that by (simp add: Terminate_def)
  next
    assume r: "k < 2 ^ 53 \<and> length pop < 2 ^ 53 \<and> maxSelectionPressure s' < 2 ^ 53"
    then show "SelectionPressure s' = Num (round_ne 53 (real k / real (length pop)))"
      using sp double_quotient_close(1) [of k "length pop"] n by simp
    show "\<bar>round_ne 53 (real k / real (length pop)) - real k / real (length pop)\<bar>
               \<le> (real k / real (length pop)) / 2 ^ 53"
      using r double_quotient_close(2) [of k "length pop"] n by simp
    show "Terminate s' \<longleftrightarrow>
               BaseTerminate s' \<or> real (maxSelectionPressure s') < real k / real (length pop)"
      using r n double_quotient_exceeds_iff [of k "length pop" "maxSelectionPressure s'"]
      by (simp add: Terminate_def sp dgreater_def)
  qed
qed

text \<open>
  Claim C10.  When the selector's population view is empty, \<^verbatim>\<open>SelectionPressure()\<close> returns
  0 without dividing, and the selection-pressure condition of \<^verbatim>\<open>Terminate()\<close> is false
  for every \<^verbatim>\<open>MaxSelectionPressure\<close>: \<^verbatim>\<open>Terminate()\<close> is the base class's answer.
\<close>

theorem SelectionPressure_empty:
  assumes "SelectorPopulation s = []"
  shows "SelectionPressure s = Num 0 \<and>
         \<not> dgreater (SelectionPressure s) (Num (size_t_to_double (maxSelectionPressure s))) \<and>
         Terminate s = BaseTerminate s"
proof -
  have "0 \<le> size_t_to_double (maxSelectionPressure s)"
    by (simp add: size_t_to_double_def round_ne_nonneg)
  then show ?thesis
    using assms by (simp add: SelectionPressure_def Terminate_def dgreater_def)
qed

text \<open>Claim C10 at the scenario's state before \<^verbatim>\<open>Prepare\<close>, whose population view is empty.\<close>

theorem SelectionPressure_empty_witness:
  "SelectorPopulation scenario_state = [] \<and>
   SelectionPressure scenario_state = Num 0 \<and>
   \<not> Terminate scenario_state"
  using SelectionPressure_empty [of scenario_state]
  by (simp add: scenario_state_def)

text \<open>
  Claim C4 at the scenario of the specification: population size 10,
  \<^verbatim>\<open>MaxSelectionPressure = 2\<close>, 25 evaluations since \<^verbatim>\<open>Prepare\<close>; the selection pressure is
  2.5 and \<^verbatim>\<open>Terminate()\<close> is true.
\<close>

theorem SelectionPressure_scenario:
  "SelectionPressure (evaluations_consumed 25 (Prepare scenario_population scenario_state)) = Num (5 / 2) \<and>
   Terminate (evaluations_consumed 25 (Prepare scenario_population scenario_state))"
proof -
  let ?s = "evaluations_consumed 25 (Prepare scenario_population scenario_state)"
  have a: "scenario_population \<noteq> []" "FitnessEvaluations scenario_state < 2 ^ 64" "(25::nat) < 2 ^ 64"
    by (simp_all add: scenario_population_def scenario_state_def)
  have len: "length scenario_population = 10"
    by (simp add: scenario_population_def)
  have mx: "maxSelectionPressure ?s = 2" "BaseTerminate ?s = False"
    by (simp_all add: evaluations_consumed_def Prepare_def scenario_state_def)
  have ex: "round_ne 53 (5 / 2) = 5 / 2"
    using round_ne_exact [of 5 53 "- 1"] by (simp add: powr_minus field_simps)
  have "(25::nat) < 2 ^ 53 \<and> length scenario_population < 2 ^ 53 \<and> maxSelectionPressure ?s < 2 ^ 53"
    by (simp add: len mx)
  with SelectionPressure_after_Prepare [OF a refl]
  have "SelectionPressure ?s = Num (round_ne 53 (real 25 / real (length scenario_population)))"
    and "Terminate ?s \<longleftrightarrow>
           BaseTerminate ?s \<or> real (maxSelectionPressure ?s) < real 25 / real (length scenario_population)"
    by blast+
  then show ?thesis
    by (simp add: len mx ex)
qed

section \<open>Properties of the cost function adapter\<close>

lemma length_seed_jets [simp]: "length (seed_jets S cur j act xs) = length xs"
  by (induction xs arbitrary: j act) simp_all

lemma seed_jets_nth:
  assumes "act = min S (j - cur)" and "i < length xs"
  shows "jet_v (seed_jets S cur j act xs ! i) =
           (if cur \<le> j + i \<and> j + i < cur + S then unit_tangent S (j + i - cur) else replicate S 0)
         \<and> jet_a (seed_jets S cur j act xs ! i) = jet_a (xs ! i)"
  using assms
proof (induction xs arbitrary: j act i)
  case Nil
  then show ?case by simp
next
  case (Cons x xs)
  show ?case
  proof (cases i)
    case 0
    with Cons.prems show ?thesis
      by (auto simp: unit_tangent_def)
  next
    case (Suc i')
    have i': "i' < length xs" using Cons.prems(2) Suc by simp
    show ?thesis
    proof (cases "act < S \<and> cur \<le> j")
      case True
      then have "Suc act = min S (Suc j - cur)" using Cons.prems(1) by (auto simp: min_def)
      from Cons.IH [OF this i'] True Suc show ?thesis by simp
    next
      case False
      then have "act = min S (Suc j - cur)" using Cons.prems(1) by (auto simp: min_def)
      from Cons.IH [OF this i'] False Suc show ?thesis by auto
    qed
  qed
qed

lemma seed_pass_nth:
  assumes "j < length xs"
  shows "jet_v (seed_jets S (p * S) 0 0 xs ! j) = stride_tangent S p j"
  using seed_jets_nth [of 0 S 0 "p * S" j xs] assms
  by (simp add: stride_tangent_def)

lemma copy_column_inactive:
  "\<not> act < S \<Longrightarrow> fold (copy_column S R) js (act, s) = (act, s)"
  by (induction js) (simp_all add: copy_column_def)

lemma copy_column_active:
  assumes "act + n \<le> S"
  shows "fold (copy_column S R) [a..<a + n] (act, s) =
          (act + n,
           s\<lparr>jMap := (\<lambda>k j'. if a \<le> j' \<and> j' < a + n \<and> k < R
                              then jet_v (outputJets s ! k) ! (act + (j' - a))
                              else jMap s k j'),
             currentDerivativeSectionCursor := currentDerivativeSectionCursor s + n,
             columnWrites := columnWrites s @ [a..<a + n]\<rparr>)"
  using assms
proof (induction n)
  case 0
  then show ?case by (auto intro!: EvalState.equality simp: fun_eq_iff)
next
  case (Suc n)
  then have IH: "fold (copy_column S R) [a..<a + n] (act, s) =
          (act + n,
           s\<lparr>jMap := (\<lambda>k j'. if a \<le> j' \<and> j' < a + n \<and> k < R
                              then jet_v (outputJets s ! k) ! (act + (j' - a))
                              else jMap s k j'),
             currentDerivativeSectionCursor := currentDerivativeSectionCursor s + n,
             columnWrites := columnWrites s @ [a..<a + n]\<rparr>)"
    by simp
  have lt: "act + n < S" using Suc.prems by simp
  have "fold (copy_column S R) [a..<a + Suc n] (act, s) =
        copy_column S R (a + n) (fold (copy_column S R) [a..<a + n] (act, s))"
    by simp
  also have "\<dots> = (act + Suc n,
           s\<lparr>jMap := (\<lambda>k j'. if a \<le> j' \<and> j' < a + Suc n \<and> k < R
                              then jet_v (outputJets s ! k) ! (act + (j' - a))
                              else jMap s k j'),
             currentDerivativeSectionCursor := currentDerivativeSectionCursor s + Suc n,
             columnWrites := columnWrites s @ [a..<a + Suc n]\<rparr>)"
    unfolding IH using lt
    by (auto simp: copy_column_def fun_eq_iff intro!: EvalState.equality)
  finally show ?case .
qed

lemma copy_columns_pass:
  fixes s :: "'a EvalState"
  assumes "cur \<le> P"
  shows "fold (copy_column S R) [cur..<P] (0, s) =
          (min S (P - cur),
           s\<lparr>jMap := (\<lambda>k j'. if cur \<le> j' \<and> j' < cur + min S (P - cur) \<and> k < R
                              then jet_v (outputJets s ! k) ! (j' - cur)
                              else jMap s k j'),
             currentDerivativeSectionCursor := currentDerivativeSectionCursor s + min S (P - cur),
             columnWrites := columnWrites s @ [cur..<cur + min S (P - cur)]\<rparr>)"
proof -
  let ?m = "min S (P - cur)"
  have split: "[cur..<P] = [cur..<cur + ?m] @ [cur + ?m..<P]"
    using assms by (metis le_add1 le_add_diff_inverse min.cobounded2 nat_add_left_cancel_le upt_add_eq_append)
  have rest: "fold (copy_column S R) [cur + ?m..<P] (?m, t) = (?m, t)" for t :: "'a EvalState"
  proof (cases "?m < S")
    case True
    then have "cur + ?m = P" using assms by (simp add: min_def split: if_splits)
    then show ?thesis by simp
  next
    case False
    then show ?thesis by (rule copy_column_inactive)
  qed
  show ?thesis
proof -
    have "fold (copy_column S R) [cur..<cur + ?m] (0, s) =
          (?m,
           s\<lparr>jMap := (\<lambda>k j'. if cur \<le> j' \<and> j' < cur + ?m \<and> k < R
                              then jet_v (outputJets s ! k) ! (j' - cur)
                              else jMap s k j'),
             currentDerivativeSectionCursor := currentDerivativeSectionCursor s + ?m,
             columnWrites := columnWrites s @ [cur..<cur + ?m]\<rparr>)"
      using copy_column_active [of 0 ?m S R cur s] by (simp cong: if_cong)
    then show ?thesis
      by (subst split) (simp add: rest)
  qed
qed

lemma evaluate_pass_ok:
  fixes s :: "('a::zero_neq_one) EvalState"
  assumes "evaluate_pass F S n pass s = (True, t)"
    and "currentDerivativeSectionCursor s \<le> NumParameters F"
  shows "\<exists>out. functor_jet F (seed_jets S (currentDerivativeSectionCursor s) 0 0 (inputJets s)) = Some out \<and>
     t = s\<lparr>inputJets := seed_jets S (currentDerivativeSectionCursor s) 0 0 (inputJets s),
          outputJets := out,
          currentDerivativeSectionCursor :=
            currentDerivativeSectionCursor s + min S (NumParameters F - currentDerivativeSectionCursor s),
          jMap := (\<lambda>k j'. if currentDerivativeSectionCursor s \<le> j' \<and>
                              j' < currentDerivativeSectionCursor s
                                     + min S (NumParameters F - currentDerivativeSectionCursor s) \<and>
                              k < NumResiduals F
                           then jet_v (out ! k) ! (j' - currentDerivativeSectionCursor s)
                           else jMap s k j'),
          residuals := (if pass = n - 1 then map jet_a out @ drop (length out) (residuals s)
                        else residuals s),
          functorCalls := functorCalls s
             @ [seed_jets S (currentDerivativeSectionCursor s) 0 0 (inputJets s)],
          columnWrites := columnWrites s
             @ [currentDerivativeSectionCursor s..<
                currentDerivativeSectionCursor s
                  + min S (NumParameters F - currentDerivativeSectionCursor s)],
          residualWrites := (if pass = n - 1 then residualWrites s @ [pass] else residualWrites s)\<rparr>"
proof (cases "functor_jet F (seed_jets S (currentDerivativeSectionCursor s) 0 0 (inputJets s))")
  case None
  with assms(1) show ?thesis by (simp add: evaluate_pass_def Let_def)
next
  case (Some out)
  show ?thesis
    using assms(1) Some
    by (auto simp: evaluate_pass_def Let_def copy_columns_pass [OF assms(2)]
          cong: if_cong intro!: EvalState.equality)
qed

lemma upt_split: "i \<le> j \<Longrightarrow> j \<le> k \<Longrightarrow> [i..<k] = [i..<j] @ [j..<k]"
  by (metis le_add_diff_inverse upt_add_eq_append)

lemma seed_jets_idem:
  "seed_jets S c j act (seed_jets S c' j' act' xs) = seed_jets S c j act xs"
  by (induction xs arbitrary: j act j' act') simp_all

lemma evaluate_passes_run:
  fixes s :: "('a::zero_neq_one) EvalState"
  assumes "evaluate_passes F S n [p..<n] s = (True, s')"
    and "p \<le> n" and "\<forall>q<n. q * S < NumParameters F" and "NumParameters F \<le> n * S"
    and "currentDerivativeSectionCursor s = min (p * S) (NumParameters F)"
  shows "functorCalls s' =
           functorCalls s @ map (\<lambda>q. seed_jets S (q * S) 0 0 (inputJets s)) [p..<n] \<and>
         columnWrites s' = columnWrites s @ [min (p * S) (NumParameters F)..<NumParameters F] \<and>
         residualWrites s' = residualWrites s @ (if p < n then [n - 1] else []) \<and>
         (\<forall>q. p \<le> q \<and> q < n \<longrightarrow> functor_jet F (seed_jets S (q * S) 0 0 (inputJets s)) \<noteq> None) \<and>
         residuals s' =
           (if p < n
            then map jet_a (the (functor_jet F (seed_jets S ((n - 1) * S) 0 0 (inputJets s))))
                 @ drop (length (the (functor_jet F (seed_jets S ((n - 1) * S) 0 0 (inputJets s)))))
                     (residuals s)
            else residuals s) \<and>
         (\<forall>k j. jMap s' k j =
            (if p * S \<le> j \<and> j < NumParameters F \<and> k < NumResiduals F
             then jet_v (the (functor_jet F (seed_jets S ((j div S) * S) 0 0 (inputJets s))) ! k)
                    ! (j mod S)
             else jMap s k j))"
  using assms
proof (induction "n - p" arbitrary: p s)
  case 0
  then have "p = n" by simp
  with 0 show ?case by (auto simp: min_def)
next
  case (Suc d)
  let ?P = "NumParameters F"
  let ?R = "NumResiduals F"
  let ?in = "seed_jets S (p * S) 0 0 (inputJets s)"
  have pn: "p < n" using Suc.hyps(2) by simp
  then have pS: "p * S < ?P" using Suc.prems(3) by simp
  have Spos: "0 < S"
    using pS Suc.prems(4) pn by (cases S) auto
  have cur: "currentDerivativeSectionCursor s = p * S"
    using Suc.prems(5) pS by simp
  have list: "[p..<n] = p # [Suc p..<n]" using pn by (simp add: upt_conv_Cons)
  obtain t where pass: "evaluate_pass F S n p s = (True, t)"
    and rest: "evaluate_passes F S n [Suc p..<n] t = (True, s')"
    using Suc.prems(1) unfolding list
    by (cases "evaluate_pass F S n p s") (auto split: bool.splits)
  have "currentDerivativeSectionCursor s \<le> ?P" using cur pS by simp
  from evaluate_pass_ok [OF pass this]
  obtain out where out: "functor_jet F ?in = Some out"
    and t: "t = s\<lparr>inputJets := ?in,
          outputJets := out,
          currentDerivativeSectionCursor := p * S + min S (?P - p * S),
          jMap := (\<lambda>k j'. if p * S \<le> j' \<and> j' < p * S + min S (?P - p * S) \<and> k < ?R
                           then jet_v (out ! k) ! (j' - p * S)
                           else jMap s k j'),
          residuals := (if p = n - 1 then map jet_a out @ drop (length out) (residuals s)
                        else residuals s),
          functorCalls := functorCalls s @ [?in],
          columnWrites := columnWrites s @ [p * S..<p * S + min S (?P - p * S)],
          residualWrites := (if p = n - 1 then residualWrites s @ [p] else residualWrites s)\<rparr>"
    unfolding cur by blast
  have next_cur: "p * S + min S (?P - p * S) = min (Suc p * S) ?P"
    using pS by (auto simp: min_def)
  have tcur: "currentDerivativeSectionCursor t = min (Suc p * S) ?P"
    by (simp add: t next_cur)
  have d: "d = n - Suc p" using Suc.hyps(2) by simp
  have IH: "functorCalls s' =
           functorCalls t @ map (\<lambda>q. seed_jets S (q * S) 0 0 (inputJets t)) [Suc p..<n] \<and>
         columnWrites s' = columnWrites t @ [min (Suc p * S) ?P..<?P] \<and>
         residualWrites s' = residualWrites t @ (if Suc p < n then [n - 1] else []) \<and>
         (\<forall>q. Suc p \<le> q \<and> q < n \<longrightarrow> functor_jet F (seed_jets S (q * S) 0 0 (inputJets t)) \<noteq> None) \<and>
         residuals s' =
           (if Suc p < n
            then map jet_a (the (functor_jet F (seed_jets S ((n - 1) * S) 0 0 (inputJets t))))
                 @ drop (length (the (functor_jet F (seed_jets S ((n - 1) * S) 0 0 (inputJets t)))))
                     (residuals t)
            else residuals t) \<and>
         (\<forall>k j. jMap s' k j =
            (if Suc p * S \<le> j \<and> j < ?P \<and> k < ?R
             then jet_v (the (functor_jet F (seed_jets S ((j div S) * S) 0 0 (inputJets t))) ! k)
                    ! (j mod S)
             else jMap t k j))"
    using Suc.hyps(1) [OF d rest _ Suc.prems(3) Suc.prems(4) tcur] pn by simp
  have tin: "seed_jets S c 0 0 (inputJets t) = seed_jets S c 0 0 (inputJets s)" for c
    by (simp add: t seed_jets_idem)
  have c1: "functorCalls s' =
           functorCalls s @ map (\<lambda>q. seed_jets S (q * S) 0 0 (inputJets s)) [p..<n]"
    using IH by (simp add: tin list) (simp add: t)
  have "[p * S..<?P] = [p * S..<min (Suc p * S) ?P] @ [min (Suc p * S) ?P..<?P]"
    using pS by (intro upt_split) simp_all
  then have c2: "columnWrites s' = columnWrites s @ [min (p * S) ?P..<?P]"
    using IH pS by (simp add: t next_cur min_absorb1)
  have c3: "residualWrites s' = residualWrites s @ (if p < n then [n - 1] else [])"
    using IH pn by (cases "Suc p < n") (auto simp: t)
  have c4: "\<forall>q. p \<le> q \<and> q < n \<longrightarrow> functor_jet F (seed_jets S (q * S) 0 0 (inputJets s)) \<noteq> None"
  proof (intro allI impI)
    fix q assume q: "p \<le> q \<and> q < n"
    show "functor_jet F (seed_jets S (q * S) 0 0 (inputJets s)) \<noteq> None"
    proof (cases "q = p")
      case True
      then show ?thesis using out by simp
    next
      case False
      then have "Suc p \<le> q \<and> q < n" using q by simp
      then show ?thesis using IH tin by simp
    qed
  qed
  have c5: "residuals s' =
           (if p < n
            then map jet_a (the (functor_jet F (seed_jets S ((n - 1) * S) 0 0 (inputJets s))))
                 @ drop (length (the (functor_jet F (seed_jets S ((n - 1) * S) 0 0 (inputJets s)))))
                     (residuals s)
            else residuals s)"
  proof (cases "Suc p < n")
    case True
    then show ?thesis using IH pn by (simp add: tin) (simp add: t)
  next
    case False
    then have "p = n - 1" using pn by simp
    then show ?thesis using IH pn False out by (simp add: t)
  qed
  have c6: "jMap s' k j =
            (if p * S \<le> j \<and> j < ?P \<and> k < ?R
             then jet_v (the (functor_jet F (seed_jets S ((j div S) * S) 0 0 (inputJets s))) ! k)
                    ! (j mod S)
             else jMap s k j)" for k j
  proof (cases "Suc p * S \<le> j \<and> j < ?P \<and> k < ?R")
    case True
    then show ?thesis using IH by (simp add: tin)
  next
    case False
    from IH have "jMap s' k j =
            (if Suc p * S \<le> j \<and> j < ?P \<and> k < ?R
             then jet_v (the (functor_jet F (seed_jets S ((j div S) * S) 0 0 (inputJets t))) ! k)
                    ! (j mod S)
             else jMap t k j)" by blast
    with False have a: "jMap s' k j = jMap t k j" by (simp only: if_False)
    show ?thesis
    proof (cases "p * S \<le> j \<and> j < ?P \<and> k < ?R")
      case True
      with False have j: "p * S \<le> j" "j < Suc p * S" by auto
      then have "j div S = p"
        using Spos by (metis div_nat_eqI mult.commute)
      moreover have "j mod S = j - p * S"
        using j Spos \<open>j div S = p\<close> by (metis minus_mult_div_eq_mod mult.commute)
      ultimately show ?thesis
        using True j out a by (simp add: t next_cur)
    next
      case False
      then show ?thesis using a by (auto simp: t next_cur)
    qed
  qed
  show ?case
    using c1 c2 c3 c4 c5 c6 by blast
qed

lemma numStrides_exact:
  assumes S: "0 < S" "S < 2 ^ 24" and P: "P < 2 ^ 24"
  shows "numStrides S P = nat \<lceil>real P / real S\<rceil>"
proof -
  let ?q = "real P / real S"
  let ?r = "round_ne 24 ?q"
  let ?c = "\<lceil>?q\<rceil>"
  have Spos: "0 < real S" using S by simp
  have conv: "numStrides S P = nat \<lceil>?r\<rceil>"
    using S P by (simp add: numStrides_def round_ne_nat)
  have "\<lceil>?r\<rceil> = ?c"
  proof (cases "?q = of_int ?c")
    case True
    have "?q \<le> real P"
      using S by (simp add: field_simps mult_le_cancel_left1)
    moreover have "real P < 2 ^ 24" using P by (simp add: of_nat_less_numeral_power_cancel_iff)
    moreover have "0 \<le> ?q" by simp
    ultimately have "real_of_int ?c < 2 ^ 24" and "0 \<le> real_of_int ?c"
      using True by linarith+
    then have "?c < 2 ^ 24" and "0 \<le> ?c"
      by (simp_all only: of_int_less_numeral_power_cancel_iff of_int_0_le_iff)
    then have "\<bar>?c\<bar> < 2 ^ 24" by simp
    from round_ne_exact [OF this, of 0] have "?r = of_int ?c"
      using True by simp
    then show ?thesis by simp
  next
    case False
    then have lt: "?q < of_int ?c" by (metis le_of_int_ceiling order_le_less)
    have gt: "of_int ?c - 1 < ?q" by linarith
    have Ppos: "0 < P" using False by (cases P) simp_all
    have "real_of_int (int P) < real_of_int (?c * int S)"
      using lt Spos by (simp add: field_simps)
    then have "int P < ?c * int S" by (simp only: of_int_less_iff)
    then have "int P + 1 \<le> ?c * int S" by simp
    then have "real_of_int (int P + 1) \<le> real_of_int (?c * int S)" by (simp only: of_int_le_iff)
    then have "(real P + 1) / real S \<le> of_int ?c"
      using Spos by (simp add: field_simps)
    then have up: "?q + 1 / real S \<le> of_int ?c"
      by (simp add: add_divide_distrib)
    have "real_of_int ((?c - 1) * int S) < real_of_int (int P)"
      using gt Spos by (simp add: field_simps)
    then have "(?c - 1) * int S < int P" by (simp only: of_int_less_iff)
    then have "(?c - 1) * int S + 1 \<le> int P" by simp
    then have "real_of_int ((?c - 1) * int S + 1) \<le> real_of_int (int P)" by (simp only: of_int_le_iff)
    then have "(of_int ?c - 1) * real S + 1 \<le> real P" by simp
    then have "((of_int ?c - 1) * real S + 1) / real S \<le> ?q"
      using Spos by (intro divide_right_mono) simp_all
    then have lo: "of_int ?c - 1 + 1 / real S \<le> ?q"
      using Spos by (simp add: add_divide_distrib)
    have "\<bar>?r - ?q\<bar> \<le> ?q / 2 ^ 24"
      using round_ne_error [of 24 ?q] by simp
    moreover have "real P < 2 ^ 24" using P by (simp add: of_nat_less_numeral_power_cancel_iff)
    then have "?q / 2 ^ 24 < 1 / real S"
      using Spos by (simp add: field_simps)
    ultimately have err: "\<bar>?r - ?q\<bar> < 1 / real S" by linarith
    have "of_int ?c - 1 < ?r" using err lo by linarith
    moreover have "?r \<le> of_int ?c" using err up by linarith
    ultimately show ?thesis by (intro ceiling_unique) simp_all
  qed
  with conv show ?thesis by simp
qed

lemma ceiling_quotient_bounds:
  assumes "0 < S"
  shows "\<forall>q < nat \<lceil>real P / real S\<rceil>. q * S < P" and "P \<le> nat \<lceil>real P / real S\<rceil> * S"
proof -
  let ?q = "real P / real S"
  let ?n = "nat \<lceil>?q\<rceil>"
  have Spos: "0 < real S" using assms by simp
  have q0: "0 \<le> ?q" by simp
  then have n: "real ?n = of_int \<lceil>?q\<rceil>" by simp
  have "?q \<le> real ?n" unfolding n by (rule le_of_int_ceiling)
  then have "real P \<le> real ?n * real S" using Spos by (metis pos_divide_le_eq)
  then have "real P \<le> real (?n * S)" by simp
  then show "P \<le> ?n * S" by (simp only: of_nat_le_iff)
  show "\<forall>q < ?n. q * S < P"
  proof (intro allI impI)
    fix q assume "q < ?n"
    then have "int q < \<lceil>?q\<rceil>" by simp
    then have "real q < ?q" by (simp add: less_ceiling_iff)
    then have "real q * real S < real P" using Spos by (metis pos_less_divide_eq)
    then have "real (q * S) < real P" by simp
    then show "q * S < P" by (simp only: of_nat_less_iff)
  qed
qed

lemma seed_initial:
  "seed_jets S (p * S) 0 0 (map (\<lambda>j. \<lparr>jet_a = parameters ! j, jet_v = replicate S 0\<rparr>) [0..<P])
     = stride_input S parameters P p"
proof (rule nth_equalityI)
  show "length (seed_jets S (p * S) 0 0 (map (\<lambda>j. \<lparr>jet_a = parameters ! j, jet_v = replicate S 0\<rparr>) [0..<P]))
          = length (stride_input S parameters P p)"
    by (simp add: stride_input_def)
next
  fix i
  assume "i < length (seed_jets S (p * S) 0 0 (map (\<lambda>j. \<lparr>jet_a = parameters ! j, jet_v = replicate S 0\<rparr>) [0..<P]))"
  then have i: "i < P" by simp
  let ?xs = "map (\<lambda>j. \<lparr>jet_a = parameters ! j, jet_v = replicate S 0\<rparr>) [0..<P]"
  have "jet_v (seed_jets S (p * S) 0 0 ?xs ! i) = stride_tangent S p i"
    using seed_pass_nth [of i ?xs S p] i by simp
  moreover have "jet_a (seed_jets S (p * S) 0 0 ?xs ! i) = parameters ! i"
    using seed_jets_nth [of 0 S 0 "p * S" i ?xs] i by simp
  ultimately show "seed_jets S (p * S) 0 0 ?xs ! i = stride_input S parameters P p ! i"
    using i by (simp add: stride_input_def)
qed

lemma stride_tangent_div:
  assumes "0 < S"
  shows "stride_tangent S p j = (if p = j div S then unit_tangent S (j mod S) else replicate S 0)"
proof (cases "p * S \<le> j \<and> j < p * S + S")
  case True
  then have "j div S = p"
    using assms by (metis div_nat_eqI mult.commute mult_Suc add.commute)
  moreover have "j mod S = j - p * S"
    using \<open>j div S = p\<close> by (metis minus_mult_div_eq_mod mult.commute)
  ultimately show ?thesis using True by (simp add: stride_tangent_def)
next
  case False
  have "p \<noteq> j div S"
  proof
    assume "p = j div S"
    then have "p * S \<le> j \<and> j < p * S + S"
      using assms dividend_less_times_div [of S j] by (simp add: mult.commute add.commute)
    with False show False by simp
  qed
  then show ?thesis using False by (auto simp: stride_tangent_def)
qed

lemma unit_tangent_neq_zero:
  "i < S \<Longrightarrow> unit_tangent S i \<noteq> replicate S (0::'a::zero_neq_one)"
  by (metis length_replicate nth_list_update_eq nth_replicate one_neq_zero unit_tangent_def)

lemma evaluate_passes_total:
  "\<forall>x. functor_jet F x \<noteq> None \<Longrightarrow> fst (evaluate_passes F S n ps s) = True"
  by (induction ps arbitrary: s)
     (auto simp: evaluate_pass_def Let_def split: option.splits prod.splits bool.splits)

text \<open>
  Claim C7, amended.  For every \<^verbatim>\<open>Evaluate\<close> call with a non-null Jacobian that returns
  \<^verbatim>\<open>true\<close> (the functor succeeds in every pass), with \<open>1 \<le> P < 2\<^sup>2\<^sup>4\<close> parameters and a
  stride \<open>1 \<le> Stride < 2\<^sup>2\<^sup>4\<close>: the functor is evaluated exactly \<open>\<lceil>P / Stride\<rceil>\<close> times,
  pass \<open>p\<close> on the parameters with the tangents of \<open>stride_input\<close>; each parameter \<open>j\<close>
  has the unit tangent of lane \<open>j mod Stride\<close> in pass \<open>j div Stride\<close> and the zero tangent in
  every other pass; the columns \<open>0, \<dots>, P - 1\<close> of the Jacobian are written once each, column
  \<open>j\<close> from lane \<open>j mod Stride\<close> of the output of pass \<open>j div Stride\<close>; and the residual array is
  written once, in the last pass, from the scalar parts of that pass's output.
\<close>

theorem Evaluate_strides:
  fixes F :: "('a::zero_neq_one) CostFunctor"
  assumes "Evaluate F Stride parameters residuals0 (Some J) = (True, s)"
    and "1 \<le> NumParameters F" and "NumParameters F < 2 ^ 24"
    and "1 \<le> Stride" and "Stride < 2 ^ 24"
  shows "functorCalls s =
           map (stride_input Stride parameters (NumParameters F))
               [0..<nat \<lceil>real (NumParameters F) / real Stride\<rceil>] \<and>
         (\<forall>j<NumParameters F.
             j div Stride < nat \<lceil>real (NumParameters F) / real Stride\<rceil> \<and>
             unit_tangent Stride (j mod Stride) \<noteq> replicate Stride (0::'a) \<and>
             (\<forall>p<nat \<lceil>real (NumParameters F) / real Stride\<rceil>.
                 jet_v (functorCalls s ! p ! j) =
                   (if p = j div Stride then unit_tangent Stride (j mod Stride)
                    else replicate Stride 0))) \<and>
         columnWrites s = [0..<NumParameters F] \<and>
         residualWrites s = [nat \<lceil>real (NumParameters F) / real Stride\<rceil> - 1] \<and>
         (\<forall>j<NumParameters F. \<forall>k<NumResiduals F.
             jMap s k j =
               jet_v (the (functor_jet F (stride_input Stride parameters (NumParameters F)
                                             (j div Stride))) ! k) ! (j mod Stride)) \<and>
         residuals s =
           map jet_a (the (functor_jet F (stride_input Stride parameters (NumParameters F)
                            (nat \<lceil>real (NumParameters F) / real Stride\<rceil> - 1))))
           @ drop (length (the (functor_jet F (stride_input Stride parameters (NumParameters F)
                            (nat \<lceil>real (NumParameters F) / real Stride\<rceil> - 1)))))
               residuals0"
proof -
  let ?P = "NumParameters F"
  let ?n = "nat \<lceil>real ?P / real Stride\<rceil>"
  let ?jets = "map (\<lambda>j. \<lparr>jet_a = parameters ! j, jet_v = replicate Stride (0::'a)\<rparr>) [0..<?P]"
  let ?s1 = "\<lparr>inputJets = ?jets,
             outputJets = replicate (NumResiduals F) \<lparr>jet_a = 0, jet_v = replicate Stride 0\<rparr>,
             currentDerivativeSection = 0, currentDerivativeSectionCursor = 0,
             jMap = J, residuals = residuals0,
             functorCalls = [], columnWrites = [], residualWrites = []\<rparr>"
  have Spos: "0 < Stride" using assms(4) by simp
  have n: "numStrides Stride ?P = ?n"
    using numStrides_exact [OF Spos assms(5) assms(3)] .
  have b1: "\<forall>q < ?n. q * Stride < ?P" and b2: "?P \<le> ?n * Stride"
    using ceiling_quotient_bounds [OF Spos, of ?P] by blast+
  have npos: "0 < ?n"
    using b2 assms(2) by (cases ?n) simp_all
  have run: "evaluate_passes F Stride ?n [0..<?n] ?s1 = (True, s)"
    using assms(1) by (simp add: Evaluate_def Let_def n)
  from evaluate_passes_run [OF run _ b1 b2]
  have calls: "functorCalls s = map (\<lambda>q. seed_jets Stride (q * Stride) 0 0 ?jets) [0..<?n]"
    and cols: "columnWrites s = [0..<?P]"
    and resw: "residualWrites s = [?n - 1]"
    and res: "residuals s =
            map jet_a (the (functor_jet F (seed_jets Stride ((?n - 1) * Stride) 0 0 ?jets)))
            @ drop (length (the (functor_jet F (seed_jets Stride ((?n - 1) * Stride) 0 0 ?jets))))
                residuals0"
    and jm: "\<And>k j. jMap s k j =
            (if 0 * Stride \<le> j \<and> j < ?P \<and> k < NumResiduals F
             then jet_v (the (functor_jet F (seed_jets Stride ((j div Stride) * Stride) 0 0 ?jets)) ! k)
                    ! (j mod Stride)
             else J k j)"
    using npos by simp_all
  have calls': "functorCalls s = map (stride_input Stride parameters ?P) [0..<?n]"
    unfolding calls seed_initial ..
  have seeded: "j div Stride < ?n \<and>
             unit_tangent Stride (j mod Stride) \<noteq> replicate Stride (0::'a) \<and>
             (\<forall>p< ?n. jet_v (functorCalls s ! p ! j) =
                   (if p = j div Stride then unit_tangent Stride (j mod Stride)
                    else replicate Stride 0))" if j: "j < ?P" for j
  proof (intro conjI allI impI)
    have "j < ?n * Stride" using j b2 by simp
    then show "j div Stride < ?n"
      using Spos by (simp add: less_mult_imp_div_less)
    show "unit_tangent Stride (j mod Stride) \<noteq> replicate Stride (0::'a)"
      using Spos by (intro unit_tangent_neq_zero) simp
    fix p assume "p < ?n"
    then show "jet_v (functorCalls s ! p ! j) =
                   (if p = j div Stride then unit_tangent Stride (j mod Stride)
                    else replicate Stride 0)"
      using j by (simp add: calls' stride_input_def stride_tangent_div [OF Spos])
  qed
  show ?thesis
    using calls' seeded cols resw res jm by (simp add: seed_initial)
qed

text \<open>
  Claim C7 at three parameters and stride two, for the residual \<open>p\<^sub>0 + 2 p\<^sub>1 + 3 p\<^sub>2\<close> at
  \<open>(1, 1, 1)\<close>: two evaluations, the last with one active direction, the Jacobian
  \<open>(1, 2, 3)\<close> and the residual \<open>6\<close>.
\<close>

theorem Evaluate_strides_witness:
  "fst (Evaluate linear_functor 2 [1, 1, 1] [0] (Some (\<lambda>k j. 0))) = True \<and>
   length (functorCalls (snd (Evaluate linear_functor 2 [1, 1, 1] [0] (Some (\<lambda>k j. 0))))) = 2 \<and>
   columnWrites (snd (Evaluate linear_functor 2 [1, 1, 1] [0] (Some (\<lambda>k j. 0)))) = [0, 1, 2] \<and>
   residualWrites (snd (Evaluate linear_functor 2 [1, 1, 1] [0] (Some (\<lambda>k j. 0)))) = [1] \<and>
   jMap (snd (Evaluate linear_functor 2 [1, 1, 1] [0] (Some (\<lambda>k j. 0)))) 0 0 = 1 \<and>
   jMap (snd (Evaluate linear_functor 2 [1, 1, 1] [0] (Some (\<lambda>k j. 0)))) 0 1 = 2 \<and>
   jMap (snd (Evaluate linear_functor 2 [1, 1, 1] [0] (Some (\<lambda>k j. 0)))) 0 2 = 3 \<and>
   residuals (snd (Evaluate linear_functor 2 [1, 1, 1] [0] (Some (\<lambda>k j. 0)))) = [6]"
proof -
  let ?E = "Evaluate linear_functor 2 [1, 1, 1] [0] (Some (\<lambda>k j. 0))"
  have "\<forall>x. functor_jet linear_functor x \<noteq> None"
    by (simp add: linear_functor_def)
  then have ok: "fst ?E = True"
    by (simp add: Evaluate_def Let_def evaluate_passes_total)
  then have h: "?E = (True, snd ?E)"
    by (metis prod.collapse)
  have P: "NumParameters linear_functor = 3" and R: "NumResiduals linear_functor = 1"
    by (simp_all add: linear_functor_def)
  have n: "nat \<lceil>real (NumParameters linear_functor) / real 2\<rceil> = 2"
    unfolding P by (simp add: ceiling_eq_iff)
  have up: "[0..<3] = [0, 1, 2]" "[0..<2] = [0, 1]"
    by (simp_all add: upt_rec)
  have f: "functor_jet linear_functor =
     (\<lambda>p. Some [\<lparr>jet_a = jet_a (p ! 0) + 2 * jet_a (p ! 1) + 3 * jet_a (p ! 2),
                                jet_v = map (\<lambda>i. jet_v (p ! 0) ! i + 2 * jet_v (p ! 1) ! i
                                                  + 3 * jet_v (p ! 2) ! i)
                                          [0..<length (jet_v (p ! 0))]\<rparr>])"
    by (simp add: linear_functor_def)
  from Evaluate_strides [OF h] 
  have "functorCalls (snd ?E) = map (stride_input 2 [1, 1, 1] 3) [0..<2]"
    and "columnWrites (snd ?E) = [0..<3]"
    and "residualWrites (snd ?E) = [1]"
    and "\<forall>j<3. \<forall>k<1.
             jMap (snd ?E) k j =
               jet_v (the (functor_jet linear_functor (stride_input 2 [1, 1, 1] 3 (j div 2))) ! k) ! (j mod 2)"
    and "residuals (snd ?E) =
           map jet_a (the (functor_jet linear_functor (stride_input 2 [1, 1, 1] 3 1)))
           @ drop (length (the (functor_jet linear_functor (stride_input 2 [1, 1, 1] 3 1)))) [0]"
    unfolding n P R by simp_all
  then show ?thesis
    using ok
    by (simp add: up f stride_input_def stride_tangent_def unit_tangent_def)
qed

lemma floor_log_2_24: "\<lfloor>log 2 \<bar>16777217::real\<bar>\<rfloor> = 24"
proof -
  have "(2::real) powr (of_int 24) \<le> 16777217 \<and> (16777217::real) < 2 powr (of_int (24 + 1))"
    by simp
  then show ?thesis
    using floor_log_eq_powr_iff [of 16777217 2 24] by simp
qed

lemma round_ne_24_tie: "round_ne 24 16777217 = 16777216"
proof -
  have "\<lfloor>16777217 / 2 :: real\<rfloor> = 8388608"
    by (simp add: floor_eq_iff)
  then have "rne (16777217 / 2) = 8388608"
    by (simp add: rne_def)
  moreover have "round_ne 24 16777217 = of_int (rne (16777217 / 2)) * 2"
    unfolding round_ne_def Let_def floor_log_2_24 by simp
  ultimately show ?thesis by simp
qed

lemma numStrides_tie: "numStrides 2 16777217 = 8388608"
proof -
  have "round_ne 24 (real 2) = 2" "round_ne 24 (real 8388608) = 8388608"
    using round_ne_nat [of 2 24] round_ne_nat [of 8388608 24] by simp_all
  then show ?thesis
    by (simp add: numStrides_def round_ne_24_tie)
qed

lemma copy_column_keeps_calls:
  "fold (copy_column S R) js (a, v) = (a', v') \<Longrightarrow> functorCalls v' = functorCalls v"
proof (induction js arbitrary: a v)
  case Nil
  then show ?case by simp
next
  case (Cons j js)
  obtain a1 v1 where step: "copy_column S R j (a, v) = (a1, v1)"
    by (meson surj_pair)
  then have "functorCalls v1 = functorCalls v"
    by (auto simp: copy_column_def split: if_splits)
  moreover have "fold (copy_column S R) js (a1, v1) = (a', v')"
    using Cons.prems step by simp
  ultimately show ?case using Cons.IH by metis
qed

lemma evaluate_pass_calls:
  "evaluate_pass F S n p s = (b, t) \<Longrightarrow> length (functorCalls t) = Suc (length (functorCalls s))"
  by (auto simp: evaluate_pass_def Let_def split: option.splits prod.splits if_splits
      dest!: copy_column_keeps_calls)

lemma evaluate_passes_calls:
  "fst (evaluate_passes F S n ps s) \<Longrightarrow>
      length (functorCalls (snd (evaluate_passes F S n ps s))) = length (functorCalls s) + length ps"
proof (induction ps arbitrary: s)
  case Nil
  then show ?case by simp
next
  case (Cons p ps)
  obtain b t where pass: "evaluate_pass F S n p s = (b, t)"
    by (meson surj_pair)
  then show ?case
    using Cons.IH [of t] Cons.prems evaluate_pass_calls [OF pass]
    by (cases b) auto
qed

lemma Evaluate_total:
  "\<forall>x. functor_jet F x \<noteq> None \<Longrightarrow> fst (Evaluate F S ps r (Some J)) = True"
  by (simp add: Evaluate_def Let_def evaluate_passes_total)

lemma Evaluate_calls:
  "fst (Evaluate F S ps r (Some J)) \<Longrightarrow>
     length (functorCalls (snd (Evaluate F S ps r (Some J)))) = numStrides S (NumParameters F)"
  using evaluate_passes_calls [of F S "numStrides S (NumParameters F)" "[0..<numStrides S (NumParameters F)]"]
  by (simp add: Evaluate_def Let_def)

text \<open>
  Claim C7 as stated fails when the functor fails: with two parameters and stride one the
  functor is evaluated once, not twice, and nothing is written.  It also fails beyond the
  precision of \<^verbatim>\<open>float\<close>: \<open>2\<^sup>2\<^sup>4 + 1\<close> parameters convert to \<open>2\<^sup>2\<^sup>4\<close>, and with stride
  two the functor is evaluated \<open>2\<^sup>2\<^sup>3\<close> times, one pass short of \<open>\<lceil>P / Stride\<rceil>\<close>.
\<close>

theorem Evaluate_strides_counterexample:
  "fst (Evaluate failing_functor 1 [1, 1] [0] (Some (\<lambda>k j. 0))) = False \<and>
   length (functorCalls (snd (Evaluate failing_functor 1 [1, 1] [0] (Some (\<lambda>k j. 0))))) = 1 \<and>
   columnWrites (snd (Evaluate failing_functor 1 [1, 1] [0] (Some (\<lambda>k j. 0)))) = [] \<and>
   residualWrites (snd (Evaluate failing_functor 1 [1, 1] [0] (Some (\<lambda>k j. 0)))) = [] \<and>
   nat \<lceil>real (NumParameters failing_functor) / real 1\<rceil> = 2 \<and>
   fst (Evaluate wide_functor 2 (replicate 16777217 0) [0] (Some (\<lambda>k j. 0))) = True \<and>
   length (functorCalls (snd (Evaluate wide_functor 2 (replicate 16777217 0) [0] (Some (\<lambda>k j. 0)))))
     = 8388608 \<and>
   nat \<lceil>real (NumParameters wide_functor) / real 2\<rceil> = 8388609"
proof -
  have n1: "numStrides (Suc 0) 2 = 2"
    using numStrides_exact [of 1 2] by simp
  have u: "[0..<2] = [0, 1]" by (simp add: upt_rec)
  have a: "fst (Evaluate failing_functor 1 [1, 1] [0] (Some (\<lambda>k j. 0))) = False \<and>
   length (functorCalls (snd (Evaluate failing_functor 1 [1, 1] [0] (Some (\<lambda>k j. 0))))) = 1 \<and>
   columnWrites (snd (Evaluate failing_functor 1 [1, 1] [0] (Some (\<lambda>k j. 0)))) = [] \<and>
   residualWrites (snd (Evaluate failing_functor 1 [1, 1] [0] (Some (\<lambda>k j. 0)))) = []"
    by (simp add: Evaluate_def failing_functor_def n1 u evaluate_pass_def)
  have b: "nat \<lceil>real (NumParameters failing_functor) / real 1\<rceil> = 2"
    by (simp add: failing_functor_def)
  have "\<forall>x. functor_jet wide_functor x \<noteq> None"
    by (simp add: wide_functor_def)
  then have ok: "fst (Evaluate wide_functor 2 (replicate 16777217 0) [0] (Some (\<lambda>k j. 0))) = True"
    by (rule Evaluate_total)
  have P: "NumParameters wide_functor = 16777217" by (simp add: wide_functor_def)
  have "length (functorCalls (snd (Evaluate wide_functor 2 (replicate 16777217 0) [0] (Some (\<lambda>k j. 0)))))
     = numStrides 2 (NumParameters wide_functor)"
    using ok by (intro Evaluate_calls) (simp only:)
  then have c: "length (functorCalls (snd (Evaluate wide_functor 2 (replicate 16777217 0) [0] (Some (\<lambda>k j. 0)))))
     = 8388608"
    by (simp only: P numStrides_tie)
  have d: "nat \<lceil>real (NumParameters wide_functor) / real 2\<rceil> = 8388609"
    unfolding P by (simp add: ceiling_eq_iff)
  from a b ok c d show ?thesis by (intro conjI) (simp_all only:)
qed

section \<open>Properties of the tree\<close>

subsection \<open>Iterating over the children\<close>

lemma size_t_sub_le:
  assumes "b \<le> a" "a < 2 ^ 64"
  shows "size_t_sub a b = a - b"
proof -
  have b: "b mod 2 ^ 64 = b" using assms by simp
  have "a + 2 ^ 64 - b = (a - b) + 2 ^ 64" using assms by simp
  then have "size_t_sub a b = ((a - b) + 2 ^ 64) mod 2 ^ 64"
    by (simp only: size_t_sub_def b)
  also have "\<dots> = (a - b) mod 2 ^ 64" by (simp only: mod_add_self2)
  also have "\<dots> = a - b" using assms by (intro mod_less) simp
  finally show ?thesis .
qed

lemma size_t_sub_zero_one: "size_t_sub 0 (Suc 0) = 2 ^ 64 - 1"
  by (simp add: size_t_sub_def)

lemma size_t_sub_step:
  assumes "L \<le> c" "c < 2 ^ 64"
  shows "size_t_sub c (L + 1) = size_t_sub (c - L) 1"
proof (cases "L = c")
  case True
  have "L + 1 \<le> 2 ^ 64" using assms True by simp
  then have "(L + 1) mod 2 ^ 64 = (if L + 1 = 2 ^ 64 then 0 else L + 1)"
    by (simp add: le_neq_implies_less)
  then show ?thesis using True assms by (auto simp: size_t_sub_def)
next
  case False
  then have "L + 1 \<le> c" using assms by simp
  then show ?thesis using assms by (simp add: size_t_sub_le)
qed

lemma walk_le: "walk nodes e k = Some lo \<Longrightarrow> lo \<le> e"
proof (induction k arbitrary: e)
  case 0
  then show ?case by simp
next
  case (Suc k)
  then show ?case
    by (auto split: if_splits dest!: Suc.IH)
qed

lemma collect_children_walk:
  assumes "walk nodes e k = Some lo"
    and "lo = i - Length (nodes ! i)" and "Length (nodes ! i) \<le> i"
    and "e \<le> i" and "i < length nodes" and "length nodes < 2 ^ 64"
  shows "\<exists>cs. collect_children nodes \<lparr>parentIndex = i, index = size_t_sub e 1\<rparr> acc = Some (acc @ cs) \<and>
              length cs = k \<and> (\<forall>c \<in> set cs. lo \<le> c \<and> c < e)"
  using assms(1,4)
proof (induction k arbitrary: e acc)
  case 0
  then have e: "e = lo" by simp
  have i64: "i < 2 ^ 64" using assms(5,6) by simp
  have "\<not> HasNext nodes \<lparr>parentIndex = i, index = size_t_sub e 1\<rparr>"
  proof (cases "e = 0")
    case True
    then show ?thesis using i64 by (simp add: HasNext_def size_t_sub_zero_one)
  next
    case False
    then have "size_t_sub e 1 = e - 1" using 0(2) i64 by (simp add: size_t_sub_le)
    moreover have "size_t_sub i (Length (nodes ! i)) = lo"
      using assms(2,3) i64 by (simp add: size_t_sub_le)
    ultimately show ?thesis using False e by (auto simp: HasNext_def)
  qed
  then show ?case by (subst collect_children.simps) simp
next
  case (Suc k)
  let ?c = "e - 1"
  let ?L = "Length (nodes ! ?c)"
  have i64: "i < 2 ^ 64" using assms(5,6) by simp
  from Suc.prems(1) have e0: "e \<noteq> 0" and L: "?L \<le> ?c"
    and w: "walk nodes (?c - ?L) k = Some lo"
    by (auto split: if_splits)
  have idx: "size_t_sub e 1 = ?c" using e0 Suc.prems(2) i64 by (simp add: size_t_sub_le)
  have lo_le: "lo \<le> ?c - ?L" using w by (rule walk_le)
  have c_lt: "?c < i" using e0 Suc.prems(2) by simp
  have has: "HasNext nodes \<lparr>parentIndex = i, index = ?c\<rparr>"
    using c_lt lo_le assms(2,3) i64 by (simp add: HasNext_def size_t_sub_le)
  have inc: "increment nodes \<lparr>parentIndex = i, index = ?c\<rparr> =
               \<lparr>parentIndex = i, index = size_t_sub (?c - ?L) 1\<rparr>"
    using size_t_sub_step [OF L] c_lt i64 by (simp add: increment_def)
  have "?c - ?L \<le> i" using c_lt by simp
  from Suc.IH [OF w this, of "acc @ [?c]"]
  obtain cs where cs: "collect_children nodes \<lparr>parentIndex = i, index = size_t_sub (?c - ?L) 1\<rparr> (acc @ [?c])
                  = Some ((acc @ [?c]) @ cs)"
      "length cs = k" "\<forall>c \<in> set cs. lo \<le> c \<and> c < ?c - ?L"
    by blast
  have "collect_children nodes \<lparr>parentIndex = i, index = size_t_sub e 1\<rparr> acc = Some (acc @ (?c # cs))"
    unfolding idx using has inc cs(1)
    by (subst collect_children.simps) (simp add: Index_def)
  moreover have "length (?c # cs) = Suc k" using cs(2) by simp
  moreover have "\<forall>c \<in> set (?c # cs). lo \<le> c \<and> c < e"
    using cs(3) lo_le e0 by auto
  ultimately show ?case by blast
qed

text \<open>
  Claim C8.  For every tree (of fewer than \<open>2\<^sup>6\<^sup>4\<close> nodes) whose derived fields satisfy the
  subtree-range invariant and every index \<open>i\<close> of a node with at least one child, the
  iteration over \<^verbatim>\<open>Children(i)\<close> ends, yields exactly \<^verbatim>\<open>Arity(i)\<close> indices, and each of them
  lies in the half-open range from \<open>i - Length(i)\<close> to \<open>i\<close>.
\<close>

theorem Children_yields_Arity:
  assumes "subtree_range_invariant nodes" and "length nodes < 2 ^ 64"
    and "i < length nodes" and "1 \<le> Arity (nodes ! i)"
  shows "\<exists>cs. ChildIndices nodes i = Some cs \<and>
              length cs = Arity (nodes ! i) \<and>
              (\<forall>c \<in> set cs. i - Length (nodes ! i) \<le> c \<and> c < i)"
proof -
  from assms(1,3) have L: "Length (nodes ! i) \<le> i"
    and w: "walk nodes i (Arity (nodes ! i)) = Some (i - Length (nodes ! i))"
    by (simp_all add: subtree_range_invariant_def)
  from collect_children_walk [OF w refl L _ assms(3) assms(2), of "[]"]
  show ?thesis by (simp add: ChildIndices_def Children_def)
qed

lemma example_tree_invariant: "subtree_range_invariant example_tree"
  by code_simp

text \<open>Claim C8 at the root of \<open>(x + y) * c\<close>: the children are the nodes 3 and 2.\<close>

theorem Children_yields_Arity_witness:
  "subtree_range_invariant example_tree \<and>
   Arity (example_tree ! 4) = 2 \<and> Length (example_tree ! 4) = 4 \<and>
   ChildIndices example_tree 4 = Some [3, 2]"
proof -
  have inv: "subtree_range_invariant example_tree"
    by (rule example_tree_invariant)
  have len: "length example_tree < 2 ^ 64" "4 < length example_tree"
    by (simp_all add: example_tree_def)
  have ar: "1 \<le> Arity (example_tree ! 4)"
    by (simp add: example_tree_def function_node_def)
  have "ChildIndices example_tree 4 = Some [3, 2]"
    by (simp add: ChildIndices_def Children_def collect_children.simps HasNext_def increment_def
        Index_def example_tree_def leaf_node_def function_node_def size_t_sub_def)
  with Children_yields_Arity [OF inv len ar] inv show ?thesis
    by (simp add: example_tree_def function_node_def)
qed

subsection \<open>Subtree extraction\<close>

lemma UpdateNodes_children_length:
  assumes "UpdateNodes_children i nodes it = Some nodes'"
  shows "length nodes' = length nodes"
proof (rule UpdateNodes_children.raw_induct
         [where P = "\<lambda>i nodes it nodes'. length nodes' = length nodes", OF _ assms])
  fix f :: "nat \<Rightarrow> Node list \<Rightarrow> SubtreeIterator \<Rightarrow> Node list option"
  fix i nodes it nodes'
  assume IH: "\<And>a b c y. f a b c = Some y \<Longrightarrow> length y = length b"
  assume eq: "(if HasNext nodes it
      then (let child = nodes ! Index it;
                s = nodes ! i;
                s1 = s\<lparr>Length := Length s + Length child\<rparr>;
                s2 = (if Depth s1 < Depth child then s1\<lparr>Depth := Depth child\<rparr> else s1);
                nodes1 = nodes[i := s2];
                nodes2 = nodes1[Index it := (nodes1 ! Index it)\<lparr>Parent := i\<rparr>]
            in f i nodes2 (increment nodes2 it))
      else Some nodes) = Some nodes'"
  show "length nodes' = length nodes"
  proof (cases "HasNext nodes it")
    case True
    define s1 where "s1 = (nodes ! i)\<lparr>Length := Length (nodes ! i) + Length (nodes ! Index it)\<rparr>"
    define s2 where "s2 = (if Depth s1 < Depth (nodes ! Index it) then s1\<lparr>Depth := Depth (nodes ! Index it)\<rparr> else s1)"
    define nodes2 where "nodes2 = (nodes[i := s2])[Index it := (nodes[i := s2] ! Index it)\<lparr>Parent := i\<rparr>]"
    have "f i nodes2 (increment nodes2 it) = Some nodes'"
      using eq True unfolding nodes2_def s2_def s1_def Let_def by (simp only: if_True)
    then have "length nodes' = length nodes2" by (rule IH)
    then show ?thesis by (simp add: nodes2_def)
  next
    case False
    with eq show ?thesis by simp
  qed
qed

lemma UpdateNodes_node_length:
  "UpdateNodes_node nodes i = Some nodes' \<Longrightarrow> length nodes' = length nodes"
  by (auto simp: UpdateNodes_node_def Let_def split: if_splits option.splits
      dest!: UpdateNodes_children_length)

lemma for_each_index_length:
  assumes "\<And>ns i ns'. body ns i = Some ns' \<Longrightarrow> length ns' = length ns"
    and "for_each_index body is nodes = Some nodes'"
  shows "length nodes' = length nodes"
  using assms(2)
proof (induction "is" arbitrary: nodes)
  case Nil
  then show ?case by simp
next
  case (Cons i "is")
  then obtain nodes1 where b: "body nodes i = Some nodes1"
    and r: "for_each_index body is nodes1 = Some nodes'"
    by (auto split: option.splits)
  from Cons.IH [OF r] assms(1) [OF b] show ?case by simp
qed

lemma UpdateNodes_length:
  "UpdateNodes nodes = Some nodes' \<Longrightarrow> length nodes' = length nodes"
  unfolding UpdateNodes_def
  by (rule for_each_index_length [of UpdateNodes_node]) (rule UpdateNodes_node_length)

text \<open>Whenever \<^verbatim>\<open>Subtree(i)\<close> returns, its result has \<^verbatim>\<open>Length(i)\<close> nodes, one fewer than the subtree.\<close>

lemma Subtree_drops_root:
  "Subtree nodes i = Some t \<Longrightarrow> length t = Length (nodes ! i)"
  by (auto simp: Subtree_def Let_def split: if_splits dest!: UpdateNodes_length)



lemma upt_2: "[0..<2] = [0, 1]"
  by (simp add: upt_rec)

text \<open>
  Claim C5 at a failing input.  In \<open>(x + y) * c\<close> the subtree of node 2, the addition, is
  the three nodes 0 to 2; \<^verbatim>\<open>Subtree(2)\<close> returns the two leaves only, without node 2 itself.
\<close>

theorem Subtree_example:
  "Subtree example_tree 2 = Some [leaf_node Variable 11, leaf_node Variable 12] \<and>
   example_tree ! 2 = function_node Add 1 2 2 2 \<and>
   Length (example_tree ! 2) + 1 = 3"
  by (simp add: Subtree_def UpdateNodes_def UpdateNodes_node_def IsLeaf_def IsConstant_def
      IsVariable_def example_tree_def leaf_node_def function_node_def upt_2)

section \<open>Hashing and sorting a tree\<close>


subsection \<open>Layout of trees in the node array\<close>

lemma flat_nonempty [simp]: "flat t \<noteq> []"
  by (cases t) simp

lemma length_flat_pos: "0 < length (flat t)"
  by (cases t) simp

lemma last_flat [simp]: "last (flat t) = root_node t"
  by (cases t) simp

lemma forest_Nil [simp]: "forest [] = []"
  by (simp add: forest_def)

lemma forest_Cons [simp]: "forest (c # cs) = flat c @ forest cs"
  by (simp add: forest_def)

lemma forest_append [simp]: "forest (cs @ ds) = forest cs @ forest ds"
  by (simp add: forest_def)

lemma flat_forest [simp]: "flat (Nd n cs) = forest cs @ [n]"
  by (simp add: forest_def)

declare flat.simps [simp del]

lemma wf_Length: "wf_tree t \<Longrightarrow> Length (root_node t) = length (flat t) - 1"
  by (cases t) simp

lemma wf_Length_le: "wf_tree t \<Longrightarrow> Suc (Length (root_node t)) = length (flat t)"
  by (cases t) simp

lemma nth_root_at:
  "(pre @ flat c @ post) ! (length pre + length (flat c) - 1) = root_node c"
proof -
  have "(pre @ flat c @ post) ! (length pre + (length (flat c) - 1)) = (flat c @ post) ! (length (flat c) - 1)"
    by (simp only: nth_append_length_plus)
  also have "\<dots> = flat c ! (length (flat c) - 1)"
    by (simp add: nth_append)
  also have "\<dots> = root_node c"
    using last_conv_nth [of "flat c"] by simp
  finally show ?thesis
    by (simp add: Nat.add_diff_assoc Suc_leI)
qed

lemma root_positions_snoc:
  "root_positions lo (cs @ [c]) =
     root_positions lo cs @ [lo + length (forest cs) + length (flat c) - 1]"
  by (induction cs arbitrary: lo) (simp_all add: add.assoc)

lemma length_root_positions [simp]: "length (root_positions lo cs) = length cs"
  by (induction cs arbitrary: lo) simp_all

lemma root_positions_bounds:
  "j \<in> set (root_positions lo cs) \<Longrightarrow> lo \<le> j \<and> j < lo + length (forest cs)"
proof (induction cs arbitrary: lo)
  case Nil
  then show ?case by simp
next
  case (Cons c cs)
  have pos: "0 < length (flat c)" by (rule length_flat_pos)
  from Cons.prems have "j = lo + length (flat c) - 1 \<or> j \<in> set (root_positions (lo + length (flat c)) cs)"
    by simp
  then show ?case
  proof
    assume "j = lo + length (flat c) - 1"
    moreover have "length (forest (c # cs)) = length (flat c) + length (forest cs)" by simp
    ultimately show ?thesis using pos by linarith
  next
    assume "j \<in> set (root_positions (lo + length (flat c)) cs)"
    from Cons.IH [OF this] show ?thesis by simp
  qed
qed

lemma distinct_root_positions: "distinct (root_positions lo cs)"
proof (induction cs arbitrary: lo)
  case Nil
  then show ?case by simp
next
  case (Cons c cs)
  have pos: "0 < length (flat c)" by (rule length_flat_pos)
  have "lo + length (flat c) - 1 \<notin> set (root_positions (lo + length (flat c)) cs)"
  proof
    assume "lo + length (flat c) - 1 \<in> set (root_positions (lo + length (flat c)) cs)"
    from root_positions_bounds [OF this] pos show False by linarith
  qed
  with Cons show ?case by simp
qed

lemma nth_root_positions:
  "map (\<lambda>j. (pre @ forest cs @ post) ! j) (root_positions (length pre) cs) = map root_node cs"
proof (induction cs arbitrary: pre)
  case Nil
  then show ?case by simp
next
  case (Cons c cs)
  have "map (\<lambda>j. ((pre @ flat c) @ forest cs @ post) ! j) (root_positions (length (pre @ flat c)) cs)
          = map root_node cs"
    by (rule Cons.IH)
  then show ?case
    using nth_root_at [of pre c "forest cs @ post"] by simp
qed

lemma slice_append_mid: "slice (pre @ xs @ post) (length pre) (length pre + length xs) = xs"
  by (simp add: slice_def)

lemma slice_root_positions:
  assumes "\<forall>c \<in> set cs. wf_tree c"
  shows "map (\<lambda>j. slice (pre @ forest cs @ post) (j - Length ((pre @ forest cs @ post) ! j)) (j + 1))
           (root_positions (length pre) cs) = map flat cs"
  using assms
proof (induction cs arbitrary: pre)
  case Nil
  then show ?case by simp
next
  case (Cons c cs)
  let ?ns = "pre @ flat c @ forest cs @ post"
  let ?j = "length pre + length (flat c) - 1"
  have wfc: "wf_tree c" using Cons.prems by simp
  have r: "?ns ! ?j = root_node c"
    using nth_root_at [of pre c "forest cs @ post"] by simp
  have L: "Suc (Length (root_node c)) = length (flat c)" using wfc by (rule wf_Length_le)
  have b: "?j - Length (?ns ! ?j) = length pre"
    unfolding r using L by linarith
  have e: "?j + 1 = length pre + length (flat c)"
    using L by linarith
  have "slice ?ns (?j - Length (?ns ! ?j)) (?j + 1) = flat c"
    unfolding b e using slice_append_mid [of pre "flat c" "forest cs @ post"] .
  moreover have "map (\<lambda>j. slice ((pre @ flat c) @ forest cs @ post)
                    (j - Length (((pre @ flat c) @ forest cs @ post) ! j)) (j + 1))
           (root_positions (length (pre @ flat c)) cs) = map flat cs"
    using Cons.prems by (intro Cons.IH) simp
  ultimately show ?case by simp
qed

subsection \<open>Iterating over the children of a node of a tree\<close>

lemma collect_children_forest:
  assumes wf: "\<forall>c \<in> set cs. wf_tree c"
    and ns: "ns = pre @ forest cs @ rest"
    and i: "i < length ns" "length ns < 2 ^ 64"
    and e: "length pre + length (forest cs) \<le> i"
    and L: "Length (ns ! i) \<le> i" "i - Length (ns ! i) = length pre"
  shows "collect_children ns \<lparr>parentIndex = i, index = size_t_sub (length pre + length (forest cs)) 1\<rparr> acc
           = Some (acc @ rev (root_positions (length pre) cs))"
  using wf ns e
proof (induction cs arbitrary: rest acc rule: rev_induct)
  case Nil
  have i64: "i < 2 ^ 64" using i by simp
  have lo: "size_t_sub i (Length (ns ! i)) = length pre"
    using L i64 by (simp add: size_t_sub_le)
  have "\<not> HasNext ns \<lparr>parentIndex = i, index = size_t_sub (length pre) 1\<rparr>"
  proof (cases "length pre = 0")
    case True
    then show ?thesis using i64 by (simp add: HasNext_def size_t_sub_zero_one)
  next
    case False
    then have p1: "1 \<le> length pre" by (simp add: Suc_leI)
    then have "size_t_sub (length pre) 1 = length pre - 1"
      using Nil.prems(3) i64 by (intro size_t_sub_le) simp_all
    then show ?thesis using p1 lo by (simp add: HasNext_def) linarith
  qed
  then show ?case by (subst collect_children.simps) simp
next
  case (snoc c cs)
  let ?e' = "length pre + length (forest cs)"
  have i64: "i < 2 ^ 64" using i by simp
  obtain m where m: "length (flat c) = Suc m"
    using length_flat_pos [of c] gr0_implies_Suc by blast
  have wfc: "wf_tree c" using snoc.prems(1) by simp
  have e_eq: "length pre + length (forest (cs @ [c])) = Suc (?e' + m)" by (simp add: m)
  have ei: "Suc (?e' + m) \<le> i" using snoc.prems(3) e_eq by simp
  have ns': "ns = pre @ forest cs @ (flat c @ rest)" using snoc.prems(2) by simp
  have "ns ! (length (pre @ forest cs) + length (flat c) - 1) = root_node c"
    unfolding ns' using nth_root_at [of "pre @ forest cs" c rest] by simp
  then have rt: "ns ! (?e' + m) = root_node c" by (simp add: m)
  have Lc: "Length (root_node c) = m" using wf_Length_le [OF wfc] m by simp
  have idx: "size_t_sub (Suc (?e' + m)) 1 = ?e' + m"
    using ei i64 size_t_sub_le [of 1 "Suc (?e' + m)"] by simp
  have lo: "size_t_sub i (Length (ns ! i)) = length pre"
    using L i64 by (simp add: size_t_sub_le)
  have has: "HasNext ns \<lparr>parentIndex = i, index = ?e' + m\<rparr>"
    using ei lo by (simp add: HasNext_def)
  have "size_t_sub (?e' + m) (m + 1) = size_t_sub (?e' + m - m) 1"
    using ei i64 by (intro size_t_sub_step) simp_all
  then have inc: "increment ns \<lparr>parentIndex = i, index = ?e' + m\<rparr> =
               \<lparr>parentIndex = i, index = size_t_sub ?e' 1\<rparr>"
    by (simp add: increment_def rt Lc)
  have "?e' \<le> i" using ei by simp
  from snoc.IH [OF _ ns' this, of "acc @ [?e' + m]"] snoc.prems(1)
  have IH: "collect_children ns \<lparr>parentIndex = i, index = size_t_sub ?e' 1\<rparr> (acc @ [?e' + m])
              = Some ((acc @ [?e' + m]) @ rev (root_positions (length pre) cs))"
    by simp
  have "collect_children ns \<lparr>parentIndex = i, index = size_t_sub (Suc (?e' + m)) 1\<rparr> acc
          = collect_children ns \<lparr>parentIndex = i, index = size_t_sub ?e' 1\<rparr> (acc @ [?e' + m])"
    unfolding idx using has inc
    by (subst collect_children.simps) (simp add: Index_def)
  also note IH
  finally show ?case
    unfolding e_eq by (simp add: root_positions_snoc m)
qed

lemma ChildIndices_tree:
  assumes wf: "wf_tree (Nd n cs)"
    and ns: "ns = pre @ flat (Nd n cs) @ post"
    and len: "length ns < 2 ^ 64"
  shows "collect_children ns (Children (length pre + length (forest cs))) []
           = Some (rev (root_positions (length pre) cs))"
proof -
  let ?i = "length pre + length (forest cs)"
  have ns': "ns = pre @ forest cs @ ([n] @ post)"
    using ns by simp
  have ni: "ns ! ?i = n"
    using ns' by (metis append.assoc append_Cons length_append nth_append_length)
  have L: "Length n = length (forest cs)" using wf by simp
  have i: "?i < length ns" using ns' by simp
  have "collect_children ns \<lparr>parentIndex = ?i, index = size_t_sub (length pre + length (forest cs)) 1\<rparr> []
           = Some ([] @ rev (root_positions (length pre) cs))"
    using wf by (intro collect_children_forest [OF _ ns' i len]) (simp_all add: ni L)
  then show ?thesis by (simp add: Children_def)
qed


subsection \<open>A loop over the indices of a tree\<close>

lemma for_each_index_append:
  "for_each_index body (xs @ ys) nodes =
     (case for_each_index body xs nodes of
        None \<Rightarrow> None
      | Some nodes1 \<Rightarrow> for_each_index body ys nodes1)"
  by (induction xs arbitrary: nodes) (simp_all split: option.splits)

lemma upt_add_split: "[a..<a + m + n] = [a..<a + m] @ [a + m..<a + m + n]"
  by (rule upt_add_eq_append) simp

lemma for_each_index_forest:
  assumes size: "\<And>t t'. R t t' \<Longrightarrow> length (flat t') = length (flat t)"
    and trees: "\<And>d pre post. d \<in> set ds \<Longrightarrow> length (pre @ flat d @ post) < B \<Longrightarrow>
        \<exists>d'. for_each_index body [length pre..<length pre + length (flat d)] (pre @ flat d @ post)
               = Some (pre @ flat d' @ post) \<and> R d d'"
    and len: "length (pre @ forest ds @ post) < B"
  shows "\<exists>ds'. for_each_index body [length pre..<length pre + length (forest ds)] (pre @ forest ds @ post)
               = Some (pre @ forest ds' @ post) \<and> list_all2 R ds ds'"
  using trees len
proof (induction ds arbitrary: pre)
  case Nil
  then show ?case by simp
next
  case (Cons d ds)
  have "length (pre @ flat d @ (forest ds @ post)) < B"
    using Cons.prems(2) by simp
  with Cons.prems(1) [of d pre "forest ds @ post"]
  obtain d' where d': "for_each_index body [length pre..<length pre + length (flat d)]
                          (pre @ flat d @ forest ds @ post) = Some (pre @ flat d' @ forest ds @ post)"
    and R: "R d d'"
    by auto
  have sz: "length (flat d') = length (flat d)" using R by (rule size)
  have l2: "length ((pre @ flat d') @ forest ds @ post) < B"
    using Cons.prems(2) sz by simp
  have "\<exists>ds'. for_each_index body
        [length (pre @ flat d')..<length (pre @ flat d') + length (forest ds)]
        ((pre @ flat d') @ forest ds @ post) = Some ((pre @ flat d') @ forest ds' @ post) \<and>
        list_all2 R ds ds'"
  proof (rule Cons.IH [OF _ l2])
    fix e pre' post'
    assume "e \<in> set ds" and "length (pre' @ flat e @ post') < B"
    then show "\<exists>d'. for_each_index body [length pre'..<length pre' + length (flat e)] (pre' @ flat e @ post')
               = Some (pre' @ flat d' @ post') \<and> R e d'"
      using Cons.prems(1) [of e pre' post'] by simp
  qed
  then obtain ds' where ds': "for_each_index body
        [length (pre @ flat d')..<length (pre @ flat d') + length (forest ds)]
        ((pre @ flat d') @ forest ds @ post) = Some ((pre @ flat d') @ forest ds' @ post)"
    and Rs: "list_all2 R ds ds'"
    by blast
  have a: "length (forest (d # ds)) = length (flat d) + length (forest ds)" by simp
  have b: "length (pre @ flat d') = length pre + length (flat d)" by (simp add: sz)
  have "[length pre..<length pre + length (forest (d # ds))] =
        [length pre..<length pre + length (flat d)] @
        [length (pre @ flat d')..<length (pre @ flat d') + length (forest ds)]"
    unfolding a b add.assoc [symmetric] by (rule upt_add_split)
  then have "for_each_index body [length pre..<length pre + length (forest (d # ds))]
        (pre @ forest (d # ds) @ post) =
        for_each_index body [length (pre @ flat d')..<length (pre @ flat d') + length (forest ds)]
          (pre @ flat d' @ forest ds @ post)"
    using d' by (simp only: for_each_index_append forest_Cons append.assoc option.case)
  also have "\<dots> = Some (pre @ forest (d' # ds') @ post)"
    using ds' by simp
  finally have "for_each_index body [length pre..<length pre + length (forest (d # ds))]
        (pre @ forest (d # ds) @ post) = Some (pre @ forest (d' # ds') @ post)" .
  moreover have "list_all2 R (d # ds) (d' # ds')" using R Rs by simp
  ultimately show ?case by blast
qed

lemma list_all2_forest_length:
  assumes "\<And>t t'. R t t' \<Longrightarrow> length (flat t') = length (flat t)"
    and "list_all2 R cs cs'"
  shows "length (forest cs') = length (forest cs)"
  using assms(2) by (induction rule: list_all2_induct) (simp_all add: assms(1))

lemma for_each_index_tree:
  assumes size: "\<And>t t'. R t t' \<Longrightarrow> length (flat t') = length (flat t)"
    and step: "\<And>n cs cs' pre post. wf_tree (Nd n cs) \<Longrightarrow> list_all2 R cs cs' \<Longrightarrow>
        length (pre @ forest cs' @ [n] @ post) < B \<Longrightarrow>
        \<exists>t'. body (pre @ forest cs' @ [n] @ post) (length pre + length (forest cs'))
               = Some (pre @ flat t' @ post) \<and> R (Nd n cs) t'"
  shows "wf_tree t \<Longrightarrow> length (pre @ flat t @ post) < B \<Longrightarrow>
         \<exists>t'. for_each_index body [length pre..<length pre + length (flat t)] (pre @ flat t @ post)
               = Some (pre @ flat t' @ post) \<and> R t t'"
proof (induction t arbitrary: pre post)
  case (Nd n cs)
  have wfc: "\<forall>c \<in> set cs. wf_tree c" using Nd.prems(1) by simp
  have l: "length (pre @ forest cs @ ([n] @ post)) < B" using Nd.prems(2) by simp
  have "\<exists>cs'. for_each_index body [length pre..<length pre + length (forest cs)]
        (pre @ forest cs @ [n] @ post) = Some (pre @ forest cs' @ [n] @ post) \<and> list_all2 R cs cs'"
  proof (rule for_each_index_forest [of R cs B body pre "[n] @ post", OF size _ l])
    fix d pre' post'
    assume "d \<in> set cs" and "length (pre' @ flat d @ post') < B"
    then show "\<exists>d'. for_each_index body [length pre'..<length pre' + length (flat d)] (pre' @ flat d @ post')
               = Some (pre' @ flat d' @ post') \<and> R d d'"
      using Nd.IH [of d pre' post'] wfc by simp
  qed
  then obtain cs' where cs': "for_each_index body [length pre..<length pre + length (forest cs)]
        (pre @ forest cs @ [n] @ post) = Some (pre @ forest cs' @ [n] @ post)"
    and Rs: "list_all2 R cs cs'"
    by blast
  have sz: "length (forest cs') = length (forest cs)"
    using size Rs by (rule list_all2_forest_length)
  have "length (pre @ forest cs' @ [n] @ post) < B" using Nd.prems(2) sz by simp
  from step [OF Nd.prems(1) Rs this]
  obtain t' where t': "body (pre @ forest cs' @ [n] @ post) (length pre + length (forest cs'))
               = Some (pre @ flat t' @ post)" and R: "R (Nd n cs) t'"
    by blast
  have "[length pre..<length pre + length (flat (Nd n cs))] =
        [length pre..<length pre + length (forest cs)] @ [length pre + length (forest cs')]"
    by (simp add: sz add.assoc [symmetric])
  then have "for_each_index body [length pre..<length pre + length (flat (Nd n cs))]
       (pre @ flat (Nd n cs) @ post) =
       for_each_index body [length pre + length (forest cs')] (pre @ forest cs' @ [n] @ post)"
    using cs' by (simp only: for_each_index_append flat_forest append.assoc option.case)
  also have "\<dots> = Some (pre @ flat t' @ post)"
    using t' by simp
  finally show ?case using R by blast
qed


subsection \<open>Hashing a tree\<close>

lemma hashed_root_fields [simp]:
  "Type (root_node (hashed H t)) = Type (root_node t)"
  "Arity (root_node (hashed H t)) = Arity (root_node t)"
  "Length (root_node (hashed H t)) = Length (root_node t)"
  "HashValue (root_node (hashed H t)) = HashValue (root_node t)"
  by (cases t; simp add: Let_def)+

lemma hashed_children: "children (hashed H (Nd n cs)) = map (hashed H) cs"
  by (simp add: Let_def)

lemma flat_hashed: "flat (hashed H (Nd n cs)) = forest (map (hashed H) cs) @ [root_node (hashed H (Nd n cs))]"
  by (simp add: Let_def)

lemma length_flat_hashed [simp]: "length (flat (hashed H t)) = length (flat t)"
proof (induction t)
  case (Nd n cs)
  have "length (forest (map (hashed H) cs)) = length (forest cs)"
    using Nd.IH by (induction cs) simp_all
  then show ?case by (simp add: flat_hashed del: hashed.simps)
qed

lemma length_forest_hashed [simp]: "length (forest (map (hashed H) cs)) = length (forest cs)"
  by (induction cs) simp_all

lemma IsLeaf_hashed [simp]: "IsLeaf (n\<lparr>CalculatedHashValue := h\<rparr>) = IsLeaf n"
  by (simp add: IsLeaf_def IsConstant_def IsVariable_def)

lemma wf_hashed: "wf_tree t \<Longrightarrow> wf_tree (hashed H t)"
proof (induction t)
  case (Nd n cs)
  then show ?case by (simp add: Let_def)
qed

lemma insort_key_map:
  "map f (insort_key (\<lambda>x. k (f x)) x xs) = insort_key k (f x) (map f xs)"
  by (induction xs) simp_all

lemma sort_key_map: "map f (sort_key (\<lambda>x. k (f x)) xs) = sort_key k (map f xs)"
  by (induction xs) (simp_all add: insort_key_map)

lemma nth_mid: "(pre @ xs @ [n] @ post) ! (length pre + length xs) = n"
  by (metis append.assoc append_Cons length_append nth_append_length)

lemma list_update_mid:
  "(pre @ xs @ [n] @ post)[length pre + length xs := m] = pre @ xs @ [m] @ post"
  by (metis append.assoc append_Cons length_append list_update_length)

lemma Hash_node_tree:
  assumes wf: "wf_tree (Nd n cs)"
    and cs': "cs' = map (hashed H) cs"
    and len: "length (pre @ forest cs' @ [n] @ post) < 2 ^ 64"
  shows "Hash_node H Relaxed (pre @ forest cs' @ [n] @ post) (length pre + length (forest cs'))
           = Some (pre @ flat (hashed H (Nd n cs)) @ post)"
proof -
  let ?ns = "pre @ forest cs' @ [n] @ post"
  let ?i = "length pre + length (forest cs')"
  have ni: "?ns ! ?i = n" by (rule nth_mid)
  show ?thesis
  proof (cases "IsLeaf n")
    case True
    then have "cs = []" using wf by simp
    then show ?thesis
      using True ni list_update_mid [of pre "[]" n post]
      by (simp add: Hash_node_def cs' Let_def)
  next
    case False
    have wf': "wf_tree (Nd n cs')"
      using wf wf_hashed [of _ H] by (simp add: cs')
    have kids: "collect_children ?ns (Children ?i) [] = Some (rev (root_positions (length pre) cs'))"
      using ChildIndices_tree [OF wf', of ?ns pre post] len by simp
    have ar: "Arity n = length cs'" using wf by (simp add: cs')
    have nth: "map (\<lambda>j. ?ns ! j) (rev (root_positions (length pre) cs')) = rev (map root_node cs')"
      using arg_cong [OF nth_root_positions [of pre cs' "[n] @ post"], of rev]
      by (simp only: rev_map)
    have mm: "map (\<lambda>j. CalculatedHashValue (?ns ! j)) xs = map CalculatedHashValue (map (\<lambda>j. ?ns ! j) xs)" for xs
      by (simp add: o_def)
    have sorted: "map (\<lambda>j. CalculatedHashValue (?ns ! j))
                    (sort_key (\<lambda>j. Node_key (?ns ! j)) (rev (root_positions (length pre) cs')))
                  = map CalculatedHashValue (sort_key Node_key (rev (map root_node cs')))"
      by (simp only: mm sort_key_map nth)
    have plain: "map (\<lambda>j. CalculatedHashValue (?ns ! j)) (rev (root_positions (length pre) cs'))
                  = map CalculatedHashValue (rev (map root_node cs'))"
      by (simp only: mm nth)
    let ?kids = "rev (map root_node cs')"
    let ?n' = "n\<lparr>CalculatedHashValue :=
             hasher H (map CalculatedHashValue
               (if IsCommutative n then sort_key Node_key ?kids else ?kids) @ [HashValue n])\<rparr>"
    have tk: "take (Arity n) (rev (root_positions (length pre) cs')) = rev (root_positions (length pre) cs')"
      by (simp add: ar)
    have lt: "\<not> length (rev (root_positions (length pre) cs')) < Arity n"
      by (simp add: ar)
    have "Hash_node H Relaxed ?ns ?i = Some (?ns[?i := ?n'])"
      unfolding Hash_node_def Let_def ni kids
      by (cases "IsCommutative n")
         (simp_all only: False if_False if_True option.case tk lt sorted plain)
    also have "?ns[?i := ?n'] = pre @ forest cs' @ [?n'] @ post"
      by (rule list_update_mid)
    also have "?n' = root_node (hashed H (Nd n cs))"
      using False by (simp add: Let_def cs' rev_map)
    also have "forest cs' @ [root_node (hashed H (Nd n cs))] @ post = flat (hashed H (Nd n cs)) @ post"
      by (simp only: flat_hashed cs' append_assoc)
    finally show ?thesis .
  qed
qed

lemma Hash_tree:
  assumes "wf_tree t" and "length (pre @ flat t @ post) < 2 ^ 64"
  shows "for_each_index (Hash_node H Relaxed) [length pre..<length pre + length (flat t)] (pre @ flat t @ post)
           = Some (pre @ flat (hashed H t) @ post)"
proof -
  have "\<exists>t'. for_each_index (Hash_node H Relaxed) [length pre..<length pre + length (flat t)] (pre @ flat t @ post)
               = Some (pre @ flat t' @ post) \<and> t' = hashed H t"
  proof (rule for_each_index_tree [where R = "\<lambda>t t'. t' = hashed H t" and B = "2 ^ 64", OF _ _ assms])
    show "length (flat t') = length (flat t)" if "t' = hashed H t" for t t'
      using that by simp
    show "\<exists>t'. Hash_node H Relaxed (pre @ forest cs' @ [n] @ post) (length pre + length (forest cs'))
               = Some (pre @ flat t' @ post) \<and> t' = hashed H (Nd n cs)"
      if "wf_tree (Nd n cs)" and "list_all2 (\<lambda>t t'. t' = hashed H t) cs cs'"
        and "length (pre @ forest cs' @ [n] @ post) < 2 ^ 64" for n cs cs' pre post
    proof -
      have "cs' = map (hashed H) cs"
        using that(2) by (induction rule: list_all2_induct) simp_all
      from Hash_node_tree [OF that(1) this that(3)] show ?thesis by simp
    qed
  qed
  then show ?thesis by simp
qed


subsection \<open>Trees that differ in the order of commutative children\<close>

lemma same_shape_leaf: "same_shape n n' \<Longrightarrow> IsLeaf n' = IsLeaf n"
  by (simp add: same_shape_def IsLeaf_def IsConstant_def IsVariable_def)

lemma same_shape_commutative: "same_shape n n' \<Longrightarrow> IsCommutative n' = IsCommutative n"
  by (simp add: same_shape_def IsCommutative_def)

lemma length_forest_sum: "length (forest cs) = sum_mset (image_mset (\<lambda>c. length (flat c)) (mset cs))"
  by (induction cs) simp_all

lemma length_forest_mset: "mset cs = mset ds \<Longrightarrow> length (forest cs) = length (forest ds)"
  by (simp add: length_forest_sum)

lemma sim_length: "sim t t' \<Longrightarrow> length (flat t') = length (flat t)"
proof (induction rule: sim.induct)
  case (1 n n' cs ds cs')
  have "length (forest ds) = length (forest cs)"
    using "1.IH" by (induction rule: list_all2_induct) simp_all
  moreover have "length (forest cs') = length (forest ds)"
    using "1.hyps"(2) by (rule length_forest_mset)
  ultimately show ?case by simp
qed

lemma sim_wf: "sim t t' \<Longrightarrow> wf_tree t \<Longrightarrow> wf_tree t'"
proof (induction rule: sim.induct)
  case (1 n n' cs ds cs')
  have wf: "Arity n = length cs" "Length n = length (forest cs)" "IsLeaf n \<longrightarrow> cs = []"
    "\<forall>c \<in> set cs. wf_tree c"
    using "1.prems" by simp_all
  have len: "length ds = length cs"
    using "1.IH" by (simp add: list_all2_lengthD)
  have len': "length cs' = length ds"
    using "1.hyps"(2) by (rule mset_eq_length)
  have fl: "length (forest ds) = length (forest cs)"
    using "1.IH" by (rule list_all2_forest_length [where R = "\<lambda>a b. sim a b \<and> (wf_tree a \<longrightarrow> wf_tree b)", rotated])
      (simp add: sim_length)
  have fl': "length (forest cs') = length (forest ds)"
    using "1.hyps"(2) by (rule length_forest_mset)
  have "\<forall>d \<in> set ds. wf_tree d"
    using "1.IH" wf(4) by (induction rule: list_all2_induct) simp_all
  moreover have "set cs' = set ds"
    using "1.hyps"(2) by (rule mset_eq_setD)
  ultimately have all: "\<forall>c \<in> set cs'. wf_tree c" by simp
  have "Arity n' = length cs'" "Length n' = length (forest cs')"
    using "1.hyps"(1) wf len len' fl fl' by (simp_all add: same_shape_def)
  moreover have "IsLeaf n' \<longrightarrow> cs' = []"
    using same_shape_leaf [OF "1.hyps"(1)] wf(3) len len' by auto
  ultimately show ?case using all by simp
qed

lemma map_sort_key: "map f (sort_key f xs) = sort (map f xs)"
  by (rule properties_for_sort [symmetric]) simp_all

lemma sort_mset_cong: "mset xs = mset ys \<Longrightarrow> sort xs = sort ys"
  by (metis sorted_list_of_multiset_mset)

lemma map_hash_sorted:
  assumes "mset (map Node_key xs) = mset (map Node_key ys)"
  shows "map CalculatedHashValue (sort_key Node_key xs) = map CalculatedHashValue (sort_key Node_key ys)"
proof -
  have c: "map CalculatedHashValue zs = map fst (map Node_key zs)" for zs
    by (simp add: Node_key_def o_def)
  show ?thesis
    by (simp only: c map_sort_key sort_mset_cong [OF assms])
qed

lemma root_hashed:
  "root_node (hashed H (Nd n cs)) =
     n\<lparr>CalculatedHashValue :=
         (if IsLeaf n then HashValue n
          else hasher H (map CalculatedHashValue
                 (if IsCommutative n then sort_key Node_key (rev (map (\<lambda>c. root_node (hashed H c)) cs))
                  else rev (map (\<lambda>c. root_node (hashed H c)) cs)) @ [HashValue n]))\<rparr>"
  by (simp add: Let_def o_def rev_map)

lemma sim_hashed_key:
  "sim t t' \<Longrightarrow> Node_key (root_node (hashed H t')) = Node_key (root_node (hashed H t))"
proof (induction rule: sim.induct)
  case (1 n n' cs ds cs')
  let ?k = "\<lambda>c. Node_key (root_node (hashed H c))"
  let ?r = "\<lambda>c. root_node (hashed H c)"
  have hv: "HashValue n' = HashValue n" using "1.hyps"(1) by (simp add: same_shape_def)
  have keys: "map ?k ds = map ?k cs"
    using "1.IH" by (induction rule: list_all2_induct) simp_all
  have mm: "map Node_key (map ?r zs) = map ?k zs" for zs by simp
  have cc: "map CalculatedHashValue zs = map fst (map Node_key zs)" for zs
    by (simp add: Node_key_def o_def)
  have "map CalculatedHashValue
          (if IsCommutative n then sort_key Node_key (rev (map ?r cs')) else rev (map ?r cs'))
      = map CalculatedHashValue
          (if IsCommutative n then sort_key Node_key (rev (map ?r cs)) else rev (map ?r cs))"
  proof (cases "IsCommutative n")
    case True
    have a: "mset (map Node_key (rev (map ?r zs))) = mset (map ?k zs)" for zs
      by (simp add: image_mset.compositionality o_def)
    have "mset (map ?k cs') = mset (map ?k ds)"
      using "1.hyps"(2) by (simp only: mset_map)
    then have "mset (map Node_key (rev (map ?r cs'))) = mset (map Node_key (rev (map ?r cs)))"
      by (simp only: a keys)
    then have "map CalculatedHashValue (sort_key Node_key (rev (map ?r cs')))
             = map CalculatedHashValue (sort_key Node_key (rev (map ?r cs)))"
      by (rule map_hash_sorted)
    then show ?thesis
      using True by (simp only: if_True)
  next
    case False
    then have "cs' = ds" by (rule "1.hyps"(3))
    then have "map Node_key (rev (map ?r cs')) = map Node_key (rev (map ?r cs))"
      using keys by (simp add: rev_map [symmetric] o_def)
    then show ?thesis using False by (simp only: if_False cc)
  qed
  then show ?case
    using same_shape_leaf [OF "1.hyps"(1)] same_shape_commutative [OF "1.hyps"(1)] hv
    by (simp only: root_hashed) (simp add: Node_key_def)
qed

lemma flat_hashed_keys:
  "mset (map Node_key (flat (hashed H (Nd n cs)))) =
     (\<Sum>c \<in># mset cs. mset (map Node_key (flat (hashed H c)))) + {#Node_key (root_node (hashed H (Nd n cs)))#}"
proof -
  have "mset (map Node_key (forest ts)) = (\<Sum>c \<in># mset ts. mset (map Node_key (flat c)))" for ts
    by (induction ts) simp_all
  from this [of "map (hashed H) cs"] show ?thesis
    by (simp only: flat_hashed) (simp add: image_mset.compositionality o_def)
qed

lemma sim_hashed_mset:
  "sim t t' \<Longrightarrow> mset (map Node_key (flat (hashed H t'))) = mset (map Node_key (flat (hashed H t)))"
proof (induction rule: sim.induct)
  case (1 n n' cs ds cs')
  let ?m = "\<lambda>c. mset (map Node_key (flat (hashed H c)))"
  have "list_all2 sim cs ds"
    using "1.IH" by (rule list_all2_mono) simp
  then have "sim (Nd n cs) (Nd n' cs')"
    using "1.hyps" by (intro sim.intros)
  then have root: "Node_key (root_node (hashed H (Nd n' cs'))) = Node_key (root_node (hashed H (Nd n cs)))"
    by (rule sim_hashed_key)
  have "map ?m ds = map ?m cs"
    using "1.IH" by (induction rule: list_all2_induct) simp_all
  then have "(\<Sum>c \<in># mset ds. ?m c) = (\<Sum>c \<in># mset cs. ?m c)"
    by (metis mset_map)
  then have "(\<Sum>c \<in># mset cs'. ?m c) = (\<Sum>c \<in># mset cs. ?m c)"
    using "1.hyps"(2) by simp
  then show ?case
    by (simp only: flat_hashed_keys root)
qed


subsection \<open>One step of \<^verbatim>\<open>Sort\<close> on a tree\<close>

lemma Sort_node_constant:
  "IsConstant (nodes ! i) \<Longrightarrow> Sort_node F strict nodes i = Some nodes"
  by (simp add: Sort_node_def)

lemma Sort_node_variable:
  "\<not> IsConstant (nodes ! i) \<Longrightarrow> IsVariable (nodes ! i) \<Longrightarrow>
   \<exists>h. Sort_node F strict nodes i = Some (nodes[i := (nodes ! i)\<lparr>CalculatedHashValue := h\<rparr>])"
  by (cases strict) (auto simp add: Sort_node_def Let_def)

lemma Sort_node_plain:
  "\<not> IsLeaf (nodes ! i) \<Longrightarrow> Length (nodes ! i) \<le> i \<Longrightarrow> \<not> IsCommutative (nodes ! i) \<Longrightarrow>
   \<exists>h. Sort_node F strict nodes i = Some (nodes[i := (nodes ! i)\<lparr>CalculatedHashValue := h\<rparr>])"
  by (auto simp add: Sort_node_def IsLeaf_def Let_def)

lemma Sort_node_leaves:
  "\<not> IsLeaf (nodes ! i) \<Longrightarrow> Length (nodes ! i) \<le> i \<Longrightarrow> IsCommutative (nodes ! i) \<Longrightarrow>
   Arity (nodes ! i) = Length (nodes ! i) \<Longrightarrow>
   nodes1 = copy_to nodes (i - Length (nodes ! i))
              (sort_nodes F (slice nodes (i - Length (nodes ! i)) i)) \<Longrightarrow>
   \<exists>h. Sort_node F strict nodes i = Some (nodes1[i := (nodes1 ! i)\<lparr>CalculatedHashValue := h\<rparr>])"
  by (auto simp add: Sort_node_def IsLeaf_def Let_def)

lemma Sort_node_subtrees:
  "\<not> IsLeaf (nodes ! i) \<Longrightarrow> Length (nodes ! i) \<le> i \<Longrightarrow> IsCommutative (nodes ! i) \<Longrightarrow>
   Arity (nodes ! i) \<noteq> Length (nodes ! i) \<Longrightarrow>
   collect_children nodes (Children i) [] = Some ks \<Longrightarrow>
   \<forall>j \<in> set ks. j < 2 ^ 31 \<Longrightarrow>
   js = sort_indices F nodes ks \<Longrightarrow>
   srt = concat (map (\<lambda>j. slice nodes (j - Length (nodes ! j)) (j + 1)) js) \<Longrightarrow>
   \<forall>j \<in> set js. Length (nodes ! j) \<le> j \<and> j < length nodes \<Longrightarrow>
   i - Length (nodes ! i) + length srt \<le> length nodes \<Longrightarrow>
   nodes1 = copy_to nodes (i - Length (nodes ! i)) srt \<Longrightarrow>
   \<exists>h. Sort_node F strict nodes i = Some (nodes1[i := (nodes1 ! i)\<lparr>CalculatedHashValue := h\<rparr>])"
  by (auto simp add: Sort_node_def IsLeaf_def Let_def)

lemma update_mid:
  "nodes1 = pre @ xs @ [n] @ post \<Longrightarrow> i = length pre + length xs \<Longrightarrow>
   nodes1[i := (nodes1 ! i)\<lparr>CalculatedHashValue := h\<rparr>] = pre @ xs @ [n\<lparr>CalculatedHashValue := h\<rparr>] @ post"
  by (simp only: nth_mid list_update_mid)

lemma copy_to_mid:
  "length ys = length xs \<Longrightarrow> copy_to (pre @ xs @ post) (length pre) ys = pre @ ys @ post"
  by (simp add: copy_to_def)

lemma forest_empty: "forest cs = [] \<Longrightarrow> cs = []"
  by (cases cs) simp_all

lemma length_le_forest: "length cs \<le> length (forest cs)"
proof (induction cs)
  case Nil
  then show ?case by simp
next
  case (Cons c cs)
  have "0 < length (flat c)" by (rule length_flat_pos)
  moreover have "length (forest (c # cs)) = length (flat c) + length (forest cs)" by simp
  moreover have "length (c # cs) = Suc (length cs)" by simp
  ultimately show ?case using Cons by linarith
qed

lemma single_nodes:
  "length cs = length (forest cs) \<Longrightarrow> cs = map (\<lambda>m. Nd m []) (forest cs)"
proof (induction cs)
  case Nil
  then show ?case by simp
next
  case (Cons c cs)
  obtain m ds where c: "c = Nd m ds" by (cases c)
  have pos: "0 < length (flat c)" by (rule length_flat_pos)
  have le: "length cs \<le> length (forest cs)" by (rule length_le_forest)
  have eq: "Suc (length cs) = length (flat c) + length (forest cs)"
    using Cons.prems by simp
  have ob: "length (flat c) = 1 \<and> length cs = length (forest cs)"
    using pos le eq by linarith
  have one: "length (flat c) = 1" and rest: "length cs = length (forest cs)"
    using ob by blast+
  have "forest ds = []" using one by (simp add: c)
  then have "ds = []" by (rule forest_empty)
  then have "flat c = [m]" "c = Nd m []" by (simp_all add: c)
  then show ?case using Cons.IH [OF rest] by simp
qed

lemma forest_single_nodes: "forest (map (\<lambda>m. Nd m []) xs) = xs"
  by (induction xs) simp_all

lemma reorder_leaves:
  assumes "length cs = length (forest cs)" and "mset ys = mset (forest cs)"
  shows "\<exists>ds. forest ds = ys \<and> mset ds = mset cs"
proof (intro exI conjI)
  show "forest (map (\<lambda>m. Nd m []) ys) = ys" by (rule forest_single_nodes)
  have "mset (map (\<lambda>m. Nd m []) ys) = mset (map (\<lambda>m. Nd m []) (forest cs))"
    using assms(2) by (simp only: mset_map)
  then show "mset (map (\<lambda>m. Nd m []) ys) = mset cs"
    using single_nodes [OF assms(1)] by simp
qed

lemma lookup_positions:
  assumes "distinct ps" and "length ps = length cs"
  shows "map (\<lambda>j. the (map_of (zip ps cs) j)) ps = cs"
proof (rule nth_equalityI)
  show "length (map (\<lambda>j. the (map_of (zip ps cs) j)) ps) = length cs"
    using assms(2) by simp
  fix k assume "k < length (map (\<lambda>j. the (map_of (zip ps cs) j)) ps)"
  then have k: "k < length cs" using assms(2) by simp
  then have "map_of (zip ps cs) (ps ! k) = Some (cs ! k)"
    using assms by (intro map_of_zip_nth)
  then show "map (\<lambda>j. the (map_of (zip ps cs) j)) ps ! k = cs ! k"
    using k assms(2) by simp
qed

lemma reorder_subtrees:
  assumes ps: "distinct ps" "length ps = length cs"
    and sl: "map sl ps = map flat cs"
    and js: "mset js = mset ps"
  shows "\<exists>ds. forest ds = concat (map sl js) \<and> mset ds = mset cs"
proof (intro exI conjI)
  let ?G = "\<lambda>j. the (map_of (zip ps cs) j)"
  have G: "map ?G ps = cs" using ps by (rule lookup_positions)
  have "map sl ps = map (\<lambda>j. flat (?G j)) ps"
    using arg_cong [OF G, of "map flat"] sl by (simp add: o_def)
  then have "\<forall>j \<in> set ps. sl j = flat (?G j)" by simp
  moreover have "set js = set ps" using js by (rule mset_eq_setD)
  ultimately have "map sl js = map flat (map ?G js)" by simp
  then show "forest (map ?G js) = concat (map sl js)" by (simp only: forest_def)
  have "mset (map ?G js) = mset (map ?G ps)" using js by (simp only: mset_map)
  then show "mset (map ?G js) = mset cs" by (simp only: G)
qed

lemma root_positions_Length:
  assumes "\<forall>c \<in> set cs. wf_tree c" and "j \<in> set (root_positions (length pre) cs)"
  shows "Length ((pre @ forest cs @ post) ! j) \<le> j"
  using assms
proof (induction cs arbitrary: pre)
  case Nil
  then show ?case by simp
next
  case (Cons c cs)
  from Cons.prems(2) consider "j = length pre + length (flat c) - 1"
    | "j \<in> set (root_positions (length (pre @ flat c)) cs)"
    by auto
  then show ?case
  proof cases
    case 1
    have "(pre @ flat c @ forest cs @ post) ! j = root_node c"
      unfolding 1 by (rule nth_root_at)
    moreover have "Length (root_node c) = length (flat c) - 1"
      using Cons.prems(1) by (intro wf_Length) simp
    ultimately show ?thesis using 1 by simp
  next
    case 2
    have "Length (((pre @ flat c) @ forest cs @ post) ! j) \<le> j"
      using Cons.prems(1) 2 by (intro Cons.IH) simp_all
    then show ?thesis by simp
  qed
qed


lemma same_shape_hash [simp]: "same_shape n (n\<lparr>CalculatedHashValue := h\<rparr>)"
  by (simp add: same_shape_def)

lemma same_shape_refl [simp]: "same_shape n n"
  by (simp add: same_shape_def)

lemma related_node:
  assumes "wf_tree (Nd n cs)"
    and "list_all2 (\<lambda>t t'. sim t t' \<and> wf_tree t') cs ds"
    and "mset cs' = mset ds"
    and "\<not> IsCommutative n \<Longrightarrow> cs' = ds"
    and "same_shape n n'"
  shows "sim (Nd n cs) (Nd n' cs') \<and> wf_tree (Nd n' cs')"
proof -
  have "list_all2 sim cs ds"
    using assms(2) by (rule list_all2_mono) simp
  then have "sim (Nd n cs) (Nd n' cs')"
    using assms(3,4,5) by (intro sim.intros)
  then show ?thesis
    using assms(1) by (simp only: sim_wf simp_thms)
qed

lemma Sort_node_tree:
  assumes wf: "wf_tree (Nd n cs)"
    and rel: "list_all2 (\<lambda>t t'. sim t t' \<and> wf_tree t') cs ds"
    and len: "length (pre @ forest ds @ [n] @ post) < 2 ^ 31"
    and F: "permuting F"
  shows "\<exists>t'. Sort_node F strict (pre @ forest ds @ [n] @ post) (length pre + length (forest ds))
               = Some (pre @ flat t' @ post) \<and> sim (Nd n cs) t' \<and> wf_tree t'"
proof -
  let ?ns = "pre @ forest ds @ [n] @ post"
  let ?i = "length pre + length (forest ds)"
  let ?ps = "root_positions (length pre) ds"
  have ni: "?ns ! ?i = n" by (rule nth_mid)
  have wfd: "wf_tree (Nd n ds)"
    using related_node [OF wf rel refl refl same_shape_refl] by (rule conjunct2)
  have ar: "Arity n = length ds" and ln: "Length n = length (forest ds)"
    and kids: "\<forall>c \<in> set ds. wf_tree c"
    using wfd by simp_all
  have lo: "?i - Length n = length pre" and le: "Length n \<le> ?i"
    by (simp_all add: ln)
  have fin: "\<exists>t'. Some (nodes1[?i := (nodes1 ! ?i)\<lparr>CalculatedHashValue := h\<rparr>]) = Some (pre @ flat t' @ post)
                  \<and> sim (Nd n cs) t' \<and> wf_tree t'"
    if "nodes1 = pre @ forest cs' @ [n] @ post" and "mset cs' = mset ds"
      and "\<not> IsCommutative n \<Longrightarrow> cs' = ds" for nodes1 cs' h
  proof -
    have "length (forest cs') = length (forest ds)"
      using that(2) by (rule length_forest_mset)
    then have "nodes1[?i := (nodes1 ! ?i)\<lparr>CalculatedHashValue := h\<rparr>]
                 = pre @ forest cs' @ [n\<lparr>CalculatedHashValue := h\<rparr>] @ post"
      using that(1) by (intro update_mid) simp_all
    also have "\<dots> = pre @ flat (Nd (n\<lparr>CalculatedHashValue := h\<rparr>) cs') @ post"
      by simp
    finally show ?thesis
      using related_node [OF wf rel that(2,3) same_shape_hash] by blast
  qed
  consider (const) "IsConstant n"
    | (var) "\<not> IsConstant n" "IsVariable n"
    | (plain) "\<not> IsLeaf n" "\<not> IsCommutative n"
    | (leaves) "\<not> IsLeaf n" "IsCommutative n" "Arity n = Length n"
    | (subtrees) "\<not> IsLeaf n" "IsCommutative n" "Arity n \<noteq> Length n"
    by (auto simp add: IsLeaf_def)
  then show ?thesis
  proof cases
    case const
    have "Sort_node F strict ?ns ?i = Some ?ns"
      using const by (intro Sort_node_constant) (simp only: ni)
    then have "Sort_node F strict ?ns ?i = Some (pre @ flat (Nd n ds) @ post)"
      by simp
    then show ?thesis
      using related_node [OF wf rel refl refl same_shape_refl] by blast
  next
    case var
    obtain h where "Sort_node F strict ?ns ?i = Some (?ns[?i := (?ns ! ?i)\<lparr>CalculatedHashValue := h\<rparr>])"
      using Sort_node_variable [of ?ns ?i F strict] var by (simp only: ni) blast
    then show ?thesis
      using fin [OF refl refl refl, of h] by simp
  next
    case plain
    obtain h where "Sort_node F strict ?ns ?i = Some (?ns[?i := (?ns ! ?i)\<lparr>CalculatedHashValue := h\<rparr>])"
      using Sort_node_plain [of ?ns ?i F strict] plain le by (simp only: ni) blast
    then show ?thesis
      using fin [OF refl refl refl, of h] by simp
  next
    case leaves
    let ?ys = "sort_nodes F (forest ds)"
    let ?nodes1 = "copy_to ?ns (?i - Length n) (sort_nodes F (slice ?ns (?i - Length n) ?i))"
    have sl: "slice ?ns (length pre) ?i = forest ds"
      by (rule slice_append_mid)
    have ms: "mset ?ys = mset (forest ds)"
      using F by (simp add: permuting_def)
    have "length ds = length (forest ds)"
      using leaves(3) ar ln by simp
    then obtain cs' where cs': "forest cs' = ?ys" "mset cs' = mset ds"
      using reorder_leaves [OF _ ms] by blast
    have "length ?ys = length (forest ds)"
      using ms by (rule mset_eq_length)
    then have "copy_to ?ns (length pre) ?ys = pre @ ?ys @ [n] @ post"
      by (rule copy_to_mid)
    then have n1: "?nodes1 = pre @ forest cs' @ [n] @ post"
      by (simp only: lo sl cs')
    obtain h where "Sort_node F strict ?ns ?i = Some (?nodes1[?i := (?nodes1 ! ?i)\<lparr>CalculatedHashValue := h\<rparr>])"
      using Sort_node_leaves [of ?ns ?i ?nodes1 F strict] leaves le by (simp only: ni) blast
    then show ?thesis
      using fin [OF n1 cs'(2), of h] leaves(2) by simp
  next
    case subtrees
    let ?ks = "rev ?ps"
    let ?js = "sort_indices F ?ns ?ks"
    let ?sl = "\<lambda>j. slice ?ns (j - Length (?ns ! j)) (j + 1)"
    let ?srt = "concat (map ?sl ?js)"
    let ?nodes1 = "copy_to ?ns (?i - Length n) ?srt"
    have "(2::nat) ^ 31 \<le> 2 ^ 64" by simp
    then have len64: "length ?ns < 2 ^ 64" using len by linarith
    have ks: "collect_children ?ns (Children ?i) [] = Some ?ks"
      using ChildIndices_tree [OF wfd, of ?ns pre post] len64 by simp
    have small: "\<forall>j \<in> set ?ks. j < 2 ^ 31"
    proof
      fix j assume "j \<in> set ?ks"
      then have "j \<in> set ?ps" by simp
      then have "j < length pre + length (forest ds)"
        using root_positions_bounds by blast
      then show "j < 2 ^ 31" using len by simp
    qed
    have js: "mset ?js = mset ?ps"
      using F by (simp add: permuting_def)
    have slp: "map ?sl ?ps = map flat ds"
      using slice_root_positions [OF kids, of pre "[n] @ post"] .
    obtain cs' where cs': "forest cs' = ?srt" "mset cs' = mset ds"
      using reorder_subtrees [OF distinct_root_positions length_root_positions slp js] by blast
    have sets: "set ?js = set ?ps" using js by (rule mset_eq_setD)
    have guard: "\<forall>j \<in> set ?js. Length (?ns ! j) \<le> j \<and> j < length ?ns"
    proof
      fix j assume "j \<in> set ?js"
      then have j: "j \<in> set ?ps" by (simp only: sets)
      have "Length (?ns ! j) \<le> j"
        using kids j by (rule root_positions_Length)
      moreover have "j < length pre + length (forest ds)"
        using root_positions_bounds [OF j] by simp
      ultimately show "Length (?ns ! j) \<le> j \<and> j < length ?ns" by simp
    qed
    have lsrt: "length ?srt = length (forest ds)"
      using length_forest_mset [OF cs'(2)] by (simp only: cs'(1))
    then have fits: "?i - Length n + length ?srt \<le> length ?ns"
      by (simp only: lo) simp
    have "copy_to ?ns (length pre) ?srt = pre @ ?srt @ [n] @ post"
      using lsrt by (rule copy_to_mid)
    then have n1: "?nodes1 = pre @ forest cs' @ [n] @ post"
      by (simp only: lo cs')
    obtain h where "Sort_node F strict ?ns ?i = Some (?nodes1[?i := (?nodes1 ! ?i)\<lparr>CalculatedHashValue := h\<rparr>])"
      using Sort_node_subtrees [of ?ns ?i ?ks ?js F ?srt ?nodes1 strict, unfolded ni, OF subtrees(1) le subtrees(2,3) ks small refl refl guard fits refl]
      by blast
    then show ?thesis
      using fin [OF n1 cs'(2), of h] subtrees(2) by simp
  qed
qed


subsection \<open>One step of \<^verbatim>\<open>UpdateNodes\<close> on a tree\<close>

lemma nth_mid2: "(pre @ xs @ mid @ [s] @ post) ! (length pre + length xs + length mid) = s"
  using nth_mid [of pre "xs @ mid" s post] by (simp add: add.assoc)

lemma list_update_mid2:
  "(pre @ xs @ mid @ [s] @ post)[length pre + length xs + length mid := s'] = pre @ xs @ mid @ [s'] @ post"
  using list_update_mid [of pre "xs @ mid" s post s'] by (simp add: add.assoc)

lemma list_update_root:
  assumes "length (flat c) = Suc m"
  shows "(pre @ flat c @ post)[length pre + m := r] = pre @ flat (Nd r (children c)) @ post"
proof -
  obtain n cs where c: "c = Nd n cs" by (cases c)
  have m: "length (forest cs) = m" using assms by (simp add: c)
  have "(pre @ forest cs @ [n] @ post)[length pre + length (forest cs) := r] = pre @ forest cs @ [r] @ post"
    by (rule list_update_mid)
  then show ?thesis by (simp add: c m)
qed

lemma UpdateNodes_children_forest:
  assumes wf: "\<forall>c \<in> set as. wf_tree c"
    and ns: "ns = pre @ forest as @ mid @ [s] @ post"
    and i: "i = length pre + length (forest as) + length mid"
    and L: "Length s = length as + length mid"
    and len: "length ns < 2 ^ 64"
  shows "\<exists>as' s'.
           UpdateNodes_children i ns \<lparr>parentIndex = i, index = size_t_sub (length pre + length (forest as)) 1\<rparr>
             = Some (pre @ forest as' @ mid @ [s'] @ post) \<and>
           list_all2 (\<lambda>a a'. \<exists>p. a' = Nd ((root_node a)\<lparr>Parent := p\<rparr>) (children a)) as as' \<and>
           Type s' = Type s \<and> Arity s' = Arity s \<and> HashValue s' = HashValue s \<and>
           Length s' = length (forest as) + length mid"
  using wf ns i L len
proof (induction as arbitrary: ns mid s rule: rev_induct)
  case Nil
  have i64: "i < 2 ^ 64" using Nil.prems by simp
  have si: "ns ! i = s"
    unfolding Nil.prems(2) Nil.prems(3) by (rule nth_mid2)
  have "Length s \<le> i" using Nil.prems by simp
  then have "size_t_sub i (Length s) = i - Length s"
    using i64 by (rule size_t_sub_le)
  then have lo: "size_t_sub i (Length (ns ! i)) = length pre"
    unfolding si using Nil.prems(3,4) by simp
  have "\<not> HasNext ns \<lparr>parentIndex = i, index = size_t_sub (length pre) 1\<rparr>"
  proof (cases "length pre = 0")
    case True
    then show ?thesis using i64 by (simp add: HasNext_def size_t_sub_zero_one)
  next
    case False
    then have p1: "1 \<le> length pre" by (simp add: Suc_leI)
    have "length pre < 2 ^ 64" using i64 Nil.prems(3) by simp
    with p1 have "size_t_sub (length pre) 1 = length pre - 1"
      by (intro size_t_sub_le)
    then show ?thesis using p1 lo by (simp add: HasNext_def) linarith
  qed
  then have "UpdateNodes_children i ns \<lparr>parentIndex = i, index = size_t_sub (length pre + length (forest [])) 1\<rparr>
               = Some (pre @ forest [] @ mid @ [s] @ post)"
    by (subst UpdateNodes_children.simps) (simp add: Nil.prems(2))
  then show ?case using Nil.prems(4) by (intro exI [of _ "[]"] exI [of _ s]) simp
next
  case (snoc c as)
  let ?e' = "length pre + length (forest as)"
  have i64: "i < 2 ^ 64" using snoc.prems by simp
  obtain m where m: "length (flat c) = Suc m"
    using length_flat_pos [of c] gr0_implies_Suc by blast
  have wfc: "wf_tree c" and wfas: "\<forall>c \<in> set as. wf_tree c"
    using snoc.prems(1) by simp_all
  have i_eq: "i = Suc (?e' + m) + length mid"
    using snoc.prems(3) by (simp add: m)
  have ns': "ns = pre @ forest as @ (flat c @ mid) @ [s] @ post"
    using snoc.prems(2) by simp
  have i_mid: "i = length pre + length (forest as) + length (flat c @ mid)"
    using i_eq by (simp add: m)
  have si: "ns ! i = s"
    unfolding ns' i_mid by (rule nth_mid2)
  have "ns ! (length (pre @ forest as) + length (flat c) - 1) = root_node c"
    unfolding ns' using nth_root_at [of "pre @ forest as" c "mid @ [s] @ post"] by simp
  then have rt: "ns ! (?e' + m) = root_node c" by (simp add: m)
  have Lc: "Length (root_node c) = m" using wf_Length_le [OF wfc] m by simp
  have Ls: "Length s = Suc (length as) + length mid" using snoc.prems(4) by simp
  have le_as: "length as \<le> length (forest as)" by (rule length_le_forest)
  have idx: "size_t_sub (Suc (?e' + m)) 1 = ?e' + m"
    using i_eq i64 size_t_sub_le [of 1 "Suc (?e' + m)"] by simp
  have "Length s \<le> i" using Ls i_eq le_as by simp
  then have "size_t_sub i (Length s) = i - Length s"
    using i64 by (rule size_t_sub_le)
  then have "size_t_sub i (Length (ns ! i)) = i - Length s"
    unfolding si .
  then have lo: "size_t_sub i (Length (ns ! i)) \<le> ?e' + m"
    using Ls i_eq le_as by simp
  have has: "HasNext ns \<lparr>parentIndex = i, index = ?e' + m\<rparr>"
    using lo i_eq by (simp add: HasNext_def)
  define s1 where "s1 = s\<lparr>Length := Length s + Length (root_node c)\<rparr>"
  define s2 where "s2 = (if Depth s1 < Depth (root_node c) then s1\<lparr>Depth := Depth (root_node c)\<rparr> else s1)"
  define c' where "c' = Nd ((root_node c)\<lparr>Parent := i\<rparr>) (children c)"
  let ?nodes1 = "ns[i := s2]"
  let ?nodes2 = "?nodes1[?e' + m := (?nodes1 ! (?e' + m))\<lparr>Parent := i\<rparr>]"
  have n1: "?nodes1 = pre @ forest as @ (flat c @ mid) @ [s2] @ post"
    unfolding ns' i_mid by (rule list_update_mid2)
  have ne: "?e' + m \<noteq> i" using i_eq by simp
  have n1j: "?nodes1 ! (?e' + m) = root_node c"
    using ne rt by simp
  have "(((pre @ forest as) @ flat c @ (mid @ [s2] @ post)))[length (pre @ forest as) + m := (root_node c)\<lparr>Parent := i\<rparr>]
          = (pre @ forest as) @ flat c' @ (mid @ [s2] @ post)"
    unfolding c'_def using m by (rule list_update_root)
  then have n2: "?nodes2 = pre @ forest as @ (flat c' @ mid) @ [s2] @ post"
    unfolding n1j unfolding n1 by simp
  have lc': "length (flat c') = Suc m" using m by (cases c) (simp add: c'_def)
  have rc': "root_node c' = (root_node c)\<lparr>Parent := i\<rparr>" by (simp add: c'_def)
  have "((pre @ forest as) @ flat c' @ (mid @ [s2] @ post)) ! (length (pre @ forest as) + length (flat c') - 1) = root_node c'"
    by (rule nth_root_at)
  then have n2j: "?nodes2 ! (?e' + m) = (root_node c)\<lparr>Parent := i\<rparr>"
    unfolding n2 by (simp add: lc' rc')
  have "?e' + m < 2 ^ 64" using i_eq i64 by simp
  then have "size_t_sub (?e' + m) (m + 1) = size_t_sub (?e' + m - m) 1"
    by (intro size_t_sub_step) simp_all
  moreover have "Length (?nodes2 ! (?e' + m)) + 1 = m + 1"
    by (simp only: n2j) (simp add: Lc)
  ultimately have inc: "increment ?nodes2 \<lparr>parentIndex = i, index = ?e' + m\<rparr> =
               \<lparr>parentIndex = i, index = size_t_sub ?e' 1\<rparr>"
    by (simp only: increment_def SubtreeIterator.simps diff_add_inverse2 add_diff_cancel_right')
  have i': "i = ?e' + length (flat c' @ mid)"
    using i_eq by (simp add: lc')
  have L2: "Length s2 = length as + length (flat c' @ mid)"
    using Ls by (simp add: lc' s2_def s1_def Lc)
  have len2: "length ?nodes2 < 2 ^ 64" using snoc.prems(5) by simp
  obtain as' s' where
    run: "UpdateNodes_children i ?nodes2 \<lparr>parentIndex = i, index = size_t_sub ?e' 1\<rparr>
            = Some (pre @ forest as' @ (flat c' @ mid) @ [s'] @ post)"
    and rel: "list_all2 (\<lambda>a a'. \<exists>p. a' = Nd ((root_node a)\<lparr>Parent := p\<rparr>) (children a)) as as'"
    and s': "Type s' = Type s2" "Arity s' = Arity s2" "HashValue s' = HashValue s2"
      "Length s' = length (forest as) + length (flat c' @ mid)"
    using snoc.IH [OF wfas n2 i' L2 len2] by blast
  have "UpdateNodes_children i ns \<lparr>parentIndex = i, index = ?e' + m\<rparr>
          = UpdateNodes_children i ?nodes2 (increment ?nodes2 \<lparr>parentIndex = i, index = ?e' + m\<rparr>)"
    using has
    by (subst UpdateNodes_children.simps)
       (simp only: if_True Let_def Index_def si rt SubtreeIterator.simps s1_def s2_def)
  then have "UpdateNodes_children i ns \<lparr>parentIndex = i, index = size_t_sub (Suc (?e' + m)) 1\<rparr>
          = Some (pre @ forest as' @ (flat c' @ mid) @ [s'] @ post)"
    unfolding idx by (simp only: inc run)
  moreover have e_eq: "length pre + length (forest (as @ [c])) = Suc (?e' + m)"
    by (simp add: m)
  moreover have out: "pre @ forest (as' @ [c']) @ mid @ [s'] @ post
                    = pre @ forest as' @ (flat c' @ mid) @ [s'] @ post"
    by simp
  ultimately have "UpdateNodes_children i ns \<lparr>parentIndex = i, index = size_t_sub (length pre + length (forest (as @ [c]))) 1\<rparr>
          = Some (pre @ forest (as' @ [c']) @ mid @ [s'] @ post)"
    by (simp only:)
  moreover have "list_all2 (\<lambda>a a'. \<exists>p. a' = Nd ((root_node a)\<lparr>Parent := p\<rparr>) (children a)) (as @ [c]) (as' @ [c'])"
    using rel by (intro list_all2_appendI) (auto simp add: c'_def)
  moreover have "Type s' = Type s" "Arity s' = Arity s" "HashValue s' = HashValue s"
    using s'(1-3) by (simp_all add: s2_def s1_def split: if_splits)
  moreover have "Length s' = length (forest (as @ [c])) + length mid"
    using s'(4) by (simp add: lc' m)
  ultimately show ?case by blast
qed


lemma IsLeaf_fields [simp]:
  "IsLeaf (n\<lparr>Parent := p\<rparr>) = IsLeaf n"
  "IsLeaf (n\<lparr>Depth := d\<rparr>) = IsLeaf n"
  "IsLeaf (n\<lparr>Length := l\<rparr>) = IsLeaf n"
  "IsLeaf (n\<lparr>Arity := a\<rparr>) = IsLeaf n"
  by (simp_all add: IsLeaf_def IsConstant_def IsVariable_def)

lemma sim_reparent:
  assumes "sim c d"
  shows "sim c (Nd ((root_node d)\<lparr>Parent := p\<rparr>) (children d))"
  using assms
proof (cases rule: sim.cases)
  case (1 n n' cs ds cs')
  have "same_shape n (n'\<lparr>Parent := p\<rparr>)"
    using 1(3) by (simp add: same_shape_def)
  then have "sim (Nd n cs) (Nd (n'\<lparr>Parent := p\<rparr>) cs')"
    using 1(4,5,6) by (intro sim.intros)
  then show ?thesis by (simp add: 1(1,2))
qed

lemma wf_reparent:
  "wf_tree d \<Longrightarrow> wf_tree (Nd ((root_node d)\<lparr>Parent := p\<rparr>) (children d))"
  by (cases d) simp

lemma related_reparent:
  assumes "list_all2 (\<lambda>t t'. sim t t' \<and> wf_tree t') cs ds"
    and "list_all2 (\<lambda>a a'. \<exists>p. a' = Nd ((root_node a)\<lparr>Parent := p\<rparr>) (children a)) ds ds'"
  shows "list_all2 (\<lambda>t t'. sim t t' \<and> wf_tree t') cs ds'"
  using assms(1,2)
proof (rule list_all2_trans [rotated])
  fix a b c
  assume "sim a b \<and> wf_tree b" and "\<exists>p. c = Nd ((root_node b)\<lparr>Parent := p\<rparr>) (children b)"
  then show "sim a c \<and> wf_tree c"
    using sim_reparent wf_reparent by blast
qed

lemma reparent_length:
  assumes "list_all2 (\<lambda>a a'. \<exists>p. a' = Nd ((root_node a)\<lparr>Parent := p\<rparr>) (children a)) ds ds'"
  shows "length (forest ds') = length (forest ds)"
  using assms
proof (induction rule: list_all2_induct)
  case Nil
  then show ?case by simp
next
  case (Cons d ds d' ds')
  then obtain p where "d' = Nd ((root_node d)\<lparr>Parent := p\<rparr>) (children d)" by blast
  then have "length (flat d') = length (flat d)" by (cases d) simp
  then show ?case using Cons by simp
qed

lemma UpdateNodes_node_tree:
  assumes wf: "wf_tree (Nd n cs)"
    and rel: "list_all2 (\<lambda>t t'. sim t t' \<and> wf_tree t') cs ds"
    and len: "length (pre @ forest ds @ [n] @ post) < 2 ^ 64"
  shows "\<exists>t'. UpdateNodes_node (pre @ forest ds @ [n] @ post) (length pre + length (forest ds))
               = Some (pre @ flat t' @ post) \<and> sim (Nd n cs) t' \<and> wf_tree t'"
proof -
  let ?ns = "pre @ forest ds @ [n] @ post"
  let ?i = "length pre + length (forest ds)"
  have ni: "?ns ! ?i = n" by (rule nth_mid)
  have wfd: "wf_tree (Nd n ds)"
    using related_node [OF wf rel refl refl same_shape_refl] by (rule conjunct2)
  have ar: "Arity n = length ds" and ln: "Length n = length (forest ds)"
    and kids: "\<forall>c \<in> set ds. wf_tree c" and leaf: "IsLeaf n \<longrightarrow> ds = []"
    using wfd by simp_all
  define s where "s = n\<lparr>Depth := 1, Length := Arity n\<rparr>"
  have upd: "?ns[?i := s] = pre @ forest ds @ [s] @ post" by (rule list_update_mid)
  show ?thesis
  proof (cases "IsLeaf n")
    case True
    then have ds: "ds = []" using leaf by simp
    define n' where "n' = s\<lparr>Arity := 0, Length := 0\<rparr>"
    have "IsLeaf s" using True by (simp add: s_def)
    then have "UpdateNodes_node ?ns ?i = Some (?ns[?i := n'])"
      unfolding UpdateNodes_node_def Let_def ni
      by (simp only: s_def [symmetric] if_True n'_def)
    also have "?ns[?i := n'] = pre @ forest ds @ [n'] @ post" by (rule list_update_mid)
    also have "\<dots> = pre @ flat (Nd n' ds) @ post" by simp
    finally have run: "UpdateNodes_node ?ns ?i = Some (pre @ flat (Nd n' ds) @ post)" .
    have "same_shape n n'"
      using ar ln by (simp add: same_shape_def n'_def s_def ds)
    then show ?thesis
      using run related_node [OF wf rel refl refl] by blast
  next
    case False
    have ns: "?ns[?i := s] = pre @ forest ds @ [] @ [s] @ post" using upd by simp
    have i: "?i = length pre + length (forest ds) + length ([] :: Node list)" by simp
    have L: "Length s = length ds + length ([] :: Node list)" by (simp add: s_def ar)
    have len': "length (?ns[?i := s]) < 2 ^ 64" using len by simp
    have idx: "Children ?i = \<lparr>parentIndex = ?i, index = size_t_sub (length pre + length (forest ds)) 1\<rparr>"
      by (simp add: Children_def)
    obtain ds' s' where
      run: "UpdateNodes_children ?i (?ns[?i := s]) (Children ?i) = Some (pre @ forest ds' @ [] @ [s'] @ post)"
      and rel': "list_all2 (\<lambda>a a'. \<exists>p. a' = Nd ((root_node a)\<lparr>Parent := p\<rparr>) (children a)) ds ds'"
      and s': "Type s' = Type s" "Arity s' = Arity s" "HashValue s' = HashValue s"
        "Length s' = length (forest ds) + length ([] :: Node list)"
      using UpdateNodes_children_forest [OF kids ns i L len'] unfolding idx by blast
    define nodes1 where "nodes1 = pre @ forest ds' @ [s'] @ post"
    define n' where "n' = s'\<lparr>Depth := Depth s' + 1\<rparr>"
    have fl: "length (forest ds') = length (forest ds)"
      using rel' by (rule reparent_length)
    have run1: "UpdateNodes_children ?i (?ns[?i := s]) (Children ?i) = Some nodes1"
      using run by (simp add: nodes1_def)
    have n1i: "nodes1 ! ?i = s'"
      unfolding nodes1_def fl [symmetric] by (rule nth_mid)
    have "nodes1[?i := n'] = pre @ forest ds' @ [n'] @ post"
      unfolding nodes1_def fl [symmetric] by (rule list_update_mid)
    then have out: "nodes1[?i := n'] = pre @ flat (Nd n' ds') @ post" by simp
    have "\<not> IsLeaf s" using False by (simp add: s_def)
    then have "UpdateNodes_node ?ns ?i = Some (nodes1[?i := n'])"
      unfolding UpdateNodes_node_def Let_def ni
      by (simp only: s_def [symmetric] if_False run1 option.case n1i n'_def)
    then have res: "UpdateNodes_node ?ns ?i = Some (pre @ flat (Nd n' ds') @ post)"
      by (simp only: out)
    have shape: "same_shape n n'"
      using s' ln by (simp add: same_shape_def n'_def s_def)
    have "list_all2 (\<lambda>t t'. sim t t' \<and> wf_tree t') cs ds'"
      using rel rel' by (rule related_reparent)
    from related_node [OF wf this refl refl shape] res show ?thesis by blast
  qed
qed

lemma sim_refl: "sim t t"
proof (induction t)
  case (Nd n cs)
  have "list_all2 sim cs cs"
    using Nd by (simp add: list_all2_same)
  then show ?case by (intro sim.intros) simp_all
qed


subsection \<open>The trees of a node array\<close>

lemma same_shape_trans: "same_shape a b \<Longrightarrow> same_shape b c \<Longrightarrow> same_shape a c"
  by (simp add: same_shape_def)

lemma sim_trans: "sim t t1 \<Longrightarrow> sim t1 t2 \<Longrightarrow> sim t t2"
proof (induction arbitrary: t2 rule: sim.induct)
  case (1 n n1 cs ds cs1)
  from "1.prems" obtain n2 es cs2 where t2: "t2 = Nd n2 cs2"
    and shape: "same_shape n1 n2" and es: "list_all2 sim cs1 es"
    and ms: "mset cs2 = mset es" and nc: "\<not> IsCommutative n1 \<Longrightarrow> cs2 = es"
    by (subst (asm) sim.simps) auto
  have comm: "IsCommutative n1 = IsCommutative n"
    using "1.hyps"(1) by (rule same_shape_commutative)
  have step: "list_all2 sim cs zs" if "list_all2 sim ds zs" for zs
    using "1.IH" that
  proof (rule list_all2_trans [rotated])
    fix a b c
    assume "sim a b \<and> (\<forall>x. sim b x \<longrightarrow> sim a x)" and "sim b c"
    then show "sim a c" by blast
  qed
  have "\<exists>zs. list_all2 sim cs zs \<and> mset cs2 = mset zs \<and> (\<not> IsCommutative n \<longrightarrow> cs2 = zs)"
  proof (cases "IsCommutative n")
    case True
    obtain es' where es': "list_all2 sim ds es'" "mset es' = mset es"
      using list_all2_reorder_left_invariance [OF es, of ds] "1.hyps"(2) by auto
    have "list_all2 sim cs es'" using es'(1) by (rule step)
    moreover have "mset cs2 = mset es'" using ms es'(2) by simp
    ultimately show ?thesis using True by blast
  next
    case False
    then have eqs: "cs1 = ds" "cs2 = es" using "1.hyps"(3) nc comm by simp_all
    have "list_all2 sim cs es" using es unfolding eqs(1) by (rule step)
    then show ?thesis using eqs(2) by blast
  qed
  then obtain zs where "list_all2 sim cs zs" "mset cs2 = mset zs" "\<not> IsCommutative n \<Longrightarrow> cs2 = zs"
    by blast
  moreover have "same_shape n n2"
    using "1.hyps"(1) shape by (rule same_shape_trans)
  ultimately show ?case unfolding t2 by (intro sim.intros)
qed

lemma sim_hashed: "sim t (hashed H t)"
proof (induction t)
  case (Nd n cs)
  have "list_all2 sim cs (map (hashed H) cs)"
    using Nd by (simp add: list_all2_conv_all_nth)
  moreover have "same_shape n (root_node (hashed H (Nd n cs)))"
    by (simp add: same_shape_def del: hashed.simps)
  ultimately have "sim (Nd n cs) (Nd (root_node (hashed H (Nd n cs))) (map (hashed H) cs))"
    by (intro sim.intros) simp_all
  then show ?case by (simp add: Let_def)
qed

lemma slice_split: "b \<le> m \<Longrightarrow> m \<le> e \<Longrightarrow> slice xs b e = slice xs b m @ slice xs m e"
proof -
  assume a: "b \<le> m" "m \<le> e"
  then have "e - b = (m - b) + (e - m)" by simp
  then have "take (e - b) (drop b xs) = take (m - b) (drop b xs) @ take (e - m) (drop (m - b) (drop b xs))"
    by (simp only: take_add)
  then show ?thesis using a by (simp add: slice_def)
qed

lemma slice_single: "i < length xs \<Longrightarrow> slice xs i (Suc i) = [xs ! i]"
  by (simp add: slice_def take_Suc_conv_app_nth [of 0] hd_drop_conv_nth take_Suc)

lemma slice_empty [simp]: "slice xs e e = []"
  by (simp add: slice_def)

lemma length_slice: "e \<le> length xs \<Longrightarrow> length (slice xs b e) = e - b"
  by (simp add: slice_def)

lemma tree_at:
  assumes i: "i < length ns" and L: "Length (ns ! i) \<le> i"
    and cs: "slice ns (i - Length (ns ! i)) i = forest cs" "length cs = Arity (ns ! i)"
    and leaf: "IsLeaf (ns ! i) \<longrightarrow> Arity (ns ! i) = 0"
    and wf: "\<forall>c \<in> set cs. wf_tree c"
  shows "wf_tree (Nd (ns ! i) cs) \<and> flat (Nd (ns ! i) cs) = slice ns (i - Length (ns ! i)) (Suc i)"
proof
  have "length (forest cs) = i - (i - Length (ns ! i))"
    using i by (simp only: cs(1) [symmetric]) (simp add: length_slice)
  then have "Length (ns ! i) = length (forest cs)" using L by simp
  then show "wf_tree (Nd (ns ! i) cs)"
    using cs(2) leaf wf by auto
  have "slice ns (i - Length (ns ! i)) (Suc i) = slice ns (i - Length (ns ! i)) i @ slice ns i (Suc i)"
    by (rule slice_split) simp_all
  then show "flat (Nd (ns ! i) cs) = slice ns (i - Length (ns ! i)) (Suc i)"
    using i by (simp add: cs(1) slice_single)
qed

lemma walk_forest:
  assumes inv: "subtree_range_invariant ns"
  shows "e \<le> length ns \<Longrightarrow> walk ns e k = Some b \<Longrightarrow>
         \<exists>cs. length cs = k \<and> b \<le> e \<and> slice ns b e = forest cs \<and> (\<forall>c \<in> set cs. wf_tree c)"
proof (induction e arbitrary: k b rule: less_induct)
  case (less e)
  show ?case
  proof (cases k)
    case 0
    then have "b = e" using less.prems(2) by simp
    then show ?thesis using 0 by (intro exI [of _ "[]"]) simp
  next
    case (Suc k')
    define i where "i = e - 1"
    define L where "L = Length (ns ! i)"
    have e0: "e \<noteq> 0" and Li: "L \<le> i" and rest: "walk ns (i - L) k' = Some b"
      using less.prems(2) unfolding Suc i_def L_def by (simp_all split: if_splits)
    have ie: "e = Suc i" "i < e" "i < length ns" using e0 less.prems(1) by (simp_all add: i_def)
    have w: "walk ns i (Arity (ns ! i)) = Some (i - L)"
      and leaf: "IsLeaf (ns ! i) \<longrightarrow> Arity (ns ! i) = 0"
      using inv ie(3) by (simp_all add: subtree_range_invariant_def L_def)
    obtain cs1 where cs1: "length cs1 = Arity (ns ! i)" "slice ns (i - L) i = forest cs1"
      "\<forall>c \<in> set cs1. wf_tree c"
      using less.IH [OF ie(2) _ w] ie(3) by auto
    have t: "wf_tree (Nd (ns ! i) cs1)" "flat (Nd (ns ! i) cs1) = slice ns (i - L) e"
      using tree_at [OF ie(3) Li [unfolded L_def] cs1(2) [unfolded L_def] cs1(1) leaf cs1(3)]
      by (simp_all only: L_def ie(1))
    have "i - L < e" "i - L \<le> length ns" using ie by simp_all
    then obtain cs2 where cs2: "length cs2 = k'" "b \<le> i - L" "slice ns b (i - L) = forest cs2"
      "\<forall>c \<in> set cs2. wf_tree c"
      using less.IH [OF _ _ rest] by blast
    have "slice ns b e = slice ns b (i - L) @ slice ns (i - L) e"
      using cs2(2) ie by (intro slice_split) simp_all
    then have "slice ns b e = forest (cs2 @ [Nd (ns ! i) cs1])"
      by (simp only: cs2(3) t(2) [symmetric] forest_append forest_Cons forest_Nil append_Nil2)
    moreover have "length (cs2 @ [Nd (ns ! i) cs1]) = k" using cs2(1) Suc by simp
    moreover have "b \<le> e" using cs2(2) ie by simp
    moreover have "\<forall>c \<in> set (cs2 @ [Nd (ns ! i) cs1]). wf_tree c"
      using cs2(4) t(1) by (simp del: wf_tree.simps)
    ultimately show ?thesis by blast
  qed
qed

lemma array_forest:
  assumes inv: "subtree_range_invariant ns"
  shows "e \<le> length ns \<Longrightarrow> \<exists>ts. take e ns = forest ts \<and> (\<forall>t \<in> set ts. wf_tree t)"
proof (induction e rule: less_induct)
  case (less e)
  show ?case
  proof (cases e)
    case 0
    then show ?thesis by (intro exI [of _ "[]"]) simp
  next
    case (Suc i)
    define L where "L = Length (ns ! i)"
    have i: "i < length ns" "i < e" using less.prems Suc by simp_all
    have Li: "L \<le> i" and w: "walk ns i (Arity (ns ! i)) = Some (i - L)"
      and leaf: "IsLeaf (ns ! i) \<longrightarrow> Arity (ns ! i) = 0"
      using inv i(1) by (simp_all add: subtree_range_invariant_def L_def)
    obtain cs1 where cs1: "length cs1 = Arity (ns ! i)" "slice ns (i - L) i = forest cs1"
      "\<forall>c \<in> set cs1. wf_tree c"
      using walk_forest [OF inv _ w] i(1) by auto
    have t: "wf_tree (Nd (ns ! i) cs1)" "flat (Nd (ns ! i) cs1) = slice ns (i - L) e"
      using tree_at [OF i(1) Li [unfolded L_def] cs1(2) [unfolded L_def] cs1(1) leaf cs1(3)]
      by (simp_all only: L_def Suc)
    have "i - L < e" "i - L \<le> length ns" using i by simp_all
    then obtain ts where ts: "take (i - L) ns = forest ts" "\<forall>t \<in> set ts. wf_tree t"
      using less.IH by blast
    have "slice ns 0 e = slice ns 0 (i - L) @ slice ns (i - L) e"
      using i by (intro slice_split) simp_all
    then have "take e ns = take (i - L) ns @ slice ns (i - L) e"
      by (simp add: slice_def)
    then have "take e ns = forest (ts @ [Nd (ns ! i) cs1])"
      by (simp only: ts(1) t(2) [symmetric] forest_append forest_Cons forest_Nil append_Nil2)
    moreover have "\<forall>c \<in> set (ts @ [Nd (ns ! i) cs1]). wf_tree c"
      using ts(2) t(1) by (simp del: wf_tree.simps)
    ultimately show ?thesis by blast
  qed
qed

lemma invariant_forest:
  assumes "subtree_range_invariant ns"
  shows "\<exists>ts. ns = forest ts \<and> (\<forall>t \<in> set ts. wf_tree t)"
  using array_forest [OF assms, of "length ns"] by simp


subsection \<open>\<^verbatim>\<open>Hash\<close> and \<^verbatim>\<open>Sort\<close> on a whole array\<close>

lemma Hash_forest:
  assumes wf: "\<forall>t \<in> set ts. wf_tree t" and len: "length (forest ts) < 2 ^ 64"
  shows "Hash H Relaxed (forest ts) = Some (forest (map (hashed H) ts))"
proof -
  have "\<exists>ts'. for_each_index (Hash_node H Relaxed) [length ([] :: Node list)..<length ([] :: Node list) + length (forest ts)]
                 ([] @ forest ts @ [])
               = Some ([] @ forest ts' @ []) \<and> list_all2 (\<lambda>t t'. t' = hashed H t) ts ts'"
  proof (rule for_each_index_forest [where B = "2 ^ 64"])
    show "length (flat t') = length (flat t)" if "t' = hashed H t" for t t'
      using that by simp
    show "\<exists>d'. for_each_index (Hash_node H Relaxed) [length pre..<length pre + length (flat d)] (pre @ flat d @ post)
                 = Some (pre @ flat d' @ post) \<and> d' = hashed H d"
      if "d \<in> set ts" and "length (pre @ flat d @ post) < 2 ^ 64" for d pre post
      using Hash_tree [OF _ that(2), of H] wf that(1) by simp
    show "length ([] @ forest ts @ []) < 2 ^ 64" using len by simp
  qed
  then obtain ts' where run: "for_each_index (Hash_node H Relaxed) [0..<length (forest ts)] (forest ts) = Some (forest ts')"
    and rel: "list_all2 (\<lambda>t t'. t' = hashed H t) ts ts'"
    by auto
  have "ts' = map (hashed H) ts"
    using rel by (induction rule: list_all2_induct) simp_all
  then show ?thesis using run by (simp add: Hash_def)
qed

lemma related_length:
  "sim t t' \<and> wf_tree t' \<Longrightarrow> length (flat t') = length (flat t)"
  by (simp add: sim_length)

lemma Sort_forest:
  assumes wf: "\<forall>t \<in> set ts. wf_tree t" and len: "length (forest ts) < 2 ^ 31"
    and F: "permuting F"
  shows "\<exists>ts'. Sort F strict (forest ts) = Some (forest ts') \<and>
               list_all2 (\<lambda>t t'. sim t t' \<and> wf_tree t') ts ts'"
proof -
  let ?R = "\<lambda>t t'. sim t t' \<and> wf_tree t'"
  have "\<exists>ts1. for_each_index (Sort_node F strict) [length ([] :: Node list)..<length ([] :: Node list) + length (forest ts)]
                 ([] @ forest ts @ [])
               = Some ([] @ forest ts1 @ []) \<and> list_all2 ?R ts ts1"
  proof (rule for_each_index_forest [where B = "2 ^ 31"])
    show "length (flat t') = length (flat t)" if "?R t t'" for t t'
      using that by (rule related_length)
    show "\<exists>d'. for_each_index (Sort_node F strict) [length pre..<length pre + length (flat d)] (pre @ flat d @ post)
                 = Some (pre @ flat d' @ post) \<and> ?R d d'"
      if "d \<in> set ts" and "length (pre @ flat d @ post) < 2 ^ 31" for d pre post
    proof (rule for_each_index_tree [where R = ?R and B = "2 ^ 31", OF _ _ _ that(2)])
      show "length (flat t') = length (flat t)" if "?R t t'" for t t'
        using that by (rule related_length)
      show "\<exists>t'. Sort_node F strict (pre @ forest cs' @ [n] @ post) (length pre + length (forest cs'))
                   = Some (pre @ flat t' @ post) \<and> ?R (Nd n cs) t'"
        if "wf_tree (Nd n cs)" and "list_all2 ?R cs cs'"
          and "length (pre @ forest cs' @ [n] @ post) < 2 ^ 31" for n cs cs' pre post
        using that F by (rule Sort_node_tree)
      show "wf_tree d" using wf that(1) by simp
    qed
    show "length ([] @ forest ts @ []) < 2 ^ 31" using len by simp
  qed
  then obtain ts1 where run1: "for_each_index (Sort_node F strict) [0..<length (forest ts)] (forest ts) = Some (forest ts1)"
    and rel1: "list_all2 ?R ts ts1"
    by auto
  have wf1: "\<forall>t \<in> set ts1. wf_tree t"
    using rel1 by (induction rule: list_all2_induct) simp_all
  have len1: "length (forest ts1) = length (forest ts)"
    using rel1 by (rule list_all2_forest_length [rotated]) (rule related_length)
  have "\<exists>ts2. for_each_index UpdateNodes_node [length ([] :: Node list)..<length ([] :: Node list) + length (forest ts1)]
                 ([] @ forest ts1 @ [])
               = Some ([] @ forest ts2 @ []) \<and> list_all2 ?R ts1 ts2"
  proof (rule for_each_index_forest [where B = "2 ^ 64"])
    show "length (flat t') = length (flat t)" if "?R t t'" for t t'
      using that by (rule related_length)
    show "\<exists>d'. for_each_index UpdateNodes_node [length pre..<length pre + length (flat d)] (pre @ flat d @ post)
                 = Some (pre @ flat d' @ post) \<and> ?R d d'"
      if "d \<in> set ts1" and "length (pre @ flat d @ post) < 2 ^ 64" for d pre post
    proof (rule for_each_index_tree [where R = ?R and B = "2 ^ 64", OF _ _ _ that(2)])
      show "length (flat t') = length (flat t)" if "?R t t'" for t t'
        using that by (rule related_length)
      show "\<exists>t'. UpdateNodes_node (pre @ forest cs' @ [n] @ post) (length pre + length (forest cs'))
                   = Some (pre @ flat t' @ post) \<and> ?R (Nd n cs) t'"
        if "wf_tree (Nd n cs)" and "list_all2 ?R cs cs'"
          and "length (pre @ forest cs' @ [n] @ post) < 2 ^ 64" for n cs cs' pre post
        using that by (rule UpdateNodes_node_tree)
      show "wf_tree d" using wf1 that(1) by simp
    qed
    have "(2::nat) ^ 31 \<le> 2 ^ 64" by simp
    then show "length ([] @ forest ts1 @ []) < 2 ^ 64" using len len1 by simp
  qed
  then obtain ts2 where run2: "for_each_index UpdateNodes_node [0..<length (forest ts1)] (forest ts1) = Some (forest ts2)"
    and rel2: "list_all2 ?R ts1 ts2"
    by auto
  have "list_all2 ?R ts ts2"
    using rel1 rel2
  proof (rule list_all2_trans [rotated])
    fix a b c assume "?R a b" and "?R b c"
    then show "?R a c" using sim_trans by blast
  qed
  moreover have "Sort F strict (forest ts) = Some (forest ts2)"
    using run1 run2 by (simp add: Sort_def UpdateNodes_def)
  ultimately show ?thesis by blast
qed

lemma forest_eq_Nil [simp]: "forest ts = [] \<longleftrightarrow> ts = []"
  by (cases ts) simp_all

lemma last_forest: "ts \<noteq> [] \<Longrightarrow> last (forest ts) = root_node (last ts)"
  by (induction ts) simp_all

lemma Tree_HashValue_forest:
  "Tree_HashValue (forest ts) = (if ts = [] then 0 else CalculatedHashValue (root_node (last ts)))"
  by (simp add: Tree_HashValue_def last_forest)

lemma hashed_forest_equal:
  assumes "list_all2 sim ts ts'"
  shows "Tree_HashValue (forest (map (hashed H) ts')) = Tree_HashValue (forest (map (hashed H) ts))"
    and "mset (map Node_key (forest (map (hashed H) ts'))) = mset (map Node_key (forest (map (hashed H) ts)))"
proof -
  have len: "length ts' = length ts"
    using assms by (simp add: list_all2_lengthD)
  show "Tree_HashValue (forest (map (hashed H) ts')) = Tree_HashValue (forest (map (hashed H) ts))"
  proof (cases "ts = []")
    case True
    then show ?thesis using len by simp
  next
    case False
    then have ne: "ts' \<noteq> []" using len by auto
    have "length ts - 1 < length ts" using False by simp
    with assms have "sim (ts ! (length ts - 1)) (ts' ! (length ts - 1))"
      by (rule list_all2_nthD)
    then have "sim (last ts) (last ts')"
      using False ne len by (simp add: last_conv_nth)
    then have "Node_key (root_node (hashed H (last ts'))) = Node_key (root_node (hashed H (last ts)))"
      by (rule sim_hashed_key)
    then have "CalculatedHashValue (root_node (hashed H (last ts')))
             = CalculatedHashValue (root_node (hashed H (last ts)))"
      by (simp add: Node_key_def)
    then show ?thesis
      using False ne by (simp add: Tree_HashValue_forest last_map del: hashed.simps)
  qed
  show "mset (map Node_key (forest (map (hashed H) ts'))) = mset (map Node_key (forest (map (hashed H) ts)))"
    using assms
  proof (induction rule: list_all2_induct)
    case Nil
    then show ?case by simp
  next
    case (Cons t ts t' ts')
    then show ?case using sim_hashed_mset [of t t' H] by (simp del: hashed.simps)
  qed
qed

lemma Sort_then_Hash:
  assumes wf: "\<forall>t \<in> set ts0. wf_tree t" and len: "length (forest ts0) < 2 ^ 31"
    and F: "permuting F" and rel: "list_all2 sim ts ts0"
  shows "\<exists>sorted after.
           Sort F strict (forest ts0) = Some sorted \<and>
           Hash H Relaxed sorted = Some after \<and>
           Tree_HashValue after = Tree_HashValue (forest (map (hashed H) ts)) \<and>
           mset (map Node_key after) = mset (map Node_key (forest (map (hashed H) ts)))"
proof -
  obtain ts' where s: "Sort F strict (forest ts0) = Some (forest ts')"
    and rel': "list_all2 (\<lambda>t t'. sim t t' \<and> wf_tree t') ts0 ts'"
    using Sort_forest [OF wf len F] by blast
  have wf': "\<forall>t \<in> set ts'. wf_tree t"
    using rel' by (induction rule: list_all2_induct) simp_all
  have "length (forest ts') = length (forest ts0)"
    using rel' by (rule list_all2_forest_length [rotated]) (rule related_length)
  moreover have "(2::nat) ^ 31 \<le> 2 ^ 64" by simp
  ultimately have len': "length (forest ts') < 2 ^ 64" using len by simp
  have h: "Hash H Relaxed (forest ts') = Some (forest (map (hashed H) ts'))"
    using wf' len' by (rule Hash_forest)
  have "list_all2 sim ts ts'"
    using rel rel'
  proof (rule list_all2_trans [rotated])
    fix a b c assume "sim a b" and "sim b c \<and> wf_tree c"
    then show "sim a c" using sim_trans by blast
  qed
  from hashed_forest_equal [OF this, of H] s h show ?thesis by blast
qed

lemma sim_refl_list: "list_all2 sim ts ts"
  by (simp add: list_all2_same sim_refl)

lemma sim_hashed_list: "list_all2 sim ts (map (hashed H) ts)"
  by (simp add: list_all2_conv_all_nth sim_hashed del: hashed.simps)

text \<open>
  Claim C9.  For every node array that satisfies the subtree-range invariant (with fewer
  than \<open>2\<^sup>3\<^sup>1\<close> nodes, and sorting functions that permute their argument), \<^verbatim>\<open>Hash\<close> in
  relaxed mode returns; \<^verbatim>\<open>Sort\<close>, applied to the hashed array or to the array as it was,
  returns; \<^verbatim>\<open>Hash\<close> in relaxed mode of the sorted array returns; and the structural hash of
  the root after sorting equals the one before, as do the hashes of all the nodes, as a
  multiset of pairs of a node's structural hash and its own hash.
\<close>

theorem Relaxed_hash_invariant_under_Sort:
  assumes "subtree_range_invariant nodes" and "length nodes < 2 ^ 31" and "permuting F"
  shows "\<exists>before sorted after sorted' after'.
           Hash H Relaxed nodes = Some before \<and>
           Sort F strict before = Some sorted \<and>
           Hash H Relaxed sorted = Some after \<and>
           Tree_HashValue after = Tree_HashValue before \<and>
           mset (map Node_key after) = mset (map Node_key before) \<and>
           Sort F strict nodes = Some sorted' \<and>
           Hash H Relaxed sorted' = Some after' \<and>
           Tree_HashValue after' = Tree_HashValue before \<and>
           mset (map Node_key after') = mset (map Node_key before)"
proof -
  obtain ts where ts: "nodes = forest ts" and wf: "\<forall>t \<in> set ts. wf_tree t"
    using invariant_forest [OF assms(1)] by blast
  let ?hs = "map (hashed H) ts"
  have len31: "length (forest ts) < 2 ^ 31" using assms(2) by (simp only: ts)
  have "(2::nat) ^ 31 \<le> 2 ^ 64" by simp
  then have len: "length (forest ts) < 2 ^ 64" using len31 by linarith
  have h1: "Hash H Relaxed nodes = Some (forest ?hs)"
    using wf len unfolding ts by (rule Hash_forest)
  have wfh: "\<forall>t \<in> set ?hs. wf_tree t"
    using wf by (simp add: wf_hashed del: hashed.simps)
  have lenh: "length (forest ?hs) < 2 ^ 31"
    using len31 by (simp del: hashed.simps)
  from Sort_then_Hash [OF wfh lenh assms(3) sim_hashed_list, of strict H]
  obtain sorted after where a: "Sort F strict (forest ?hs) = Some sorted"
    "Hash H Relaxed sorted = Some after"
    "Tree_HashValue after = Tree_HashValue (forest ?hs)"
    "mset (map Node_key after) = mset (map Node_key (forest ?hs))"
    by blast
  from Sort_then_Hash [OF wf len31 assms(3) sim_refl_list, of strict H]
  obtain sorted' after' where b: "Sort F strict nodes = Some sorted'"
    "Hash H Relaxed sorted' = Some after'"
    "Tree_HashValue after' = Tree_HashValue (forest ?hs)"
    "mset (map Node_key after') = mset (map Node_key (forest ?hs))"
    unfolding ts by blast
  from h1 a b show ?thesis by blast
qed

lemma unsorted_tree_invariant: "subtree_range_invariant unsorted_tree"
  by code_simp

lemma example_sort_permuting: "permuting example_sort"
  by (simp add: permuting_def example_sort_def)

lemma Hash_unsorted_tree:
  "Hash example_hash Relaxed unsorted_tree =
   Some [leaf_node Constant 13, leaf_node Variable 12, leaf_node Variable 11,
         (function_node Add 1 2 2 2)\<lparr>CalculatedHashValue := 219481\<rparr>,
         (function_node Mul 2 2 4 3)\<lparr>CalculatedHashValue := 24922\<rparr>]"
  by (simp add: Hash_def Hash_node_def unsorted_tree_def leaf_node_def function_node_def
      IsLeaf_def IsConstant_def IsVariable_def IsCommutative_def upt_rec
      collect_children.simps Children_def HasNext_def increment_def Index_def size_t_sub_def
      example_hash_def Node_key_def Let_def)

lemma Sort_hashed_tree:
  "Sort example_sort False
     [leaf_node Constant 13, leaf_node Variable 12, leaf_node Variable 11,
      (function_node Add 1 2 2 2)\<lparr>CalculatedHashValue := 219481\<rparr>,
      (function_node Mul 2 2 4 3)\<lparr>CalculatedHashValue := 24922\<rparr>] =
   Some [(leaf_node Constant 13)\<lparr>Parent := 4\<rparr>, (leaf_node Variable 11)\<lparr>Parent := 3\<rparr>,
         (leaf_node Variable 12)\<lparr>Parent := 3\<rparr>,
         (function_node Add 1 2 2 2)\<lparr>Parent := 4, CalculatedHashValue := 219481\<rparr>,
         (function_node Mul 2 2 4 3)\<lparr>CalculatedHashValue := 552319\<rparr>]"
  by (simp add: Sort_def Sort_node_def UpdateNodes_def UpdateNodes_node_def UpdateNodes_children.simps
      leaf_node_def function_node_def
      IsLeaf_def IsConstant_def IsVariable_def IsCommutative_def upt_rec
      collect_children.simps Children_def HasNext_def increment_def Index_def size_t_sub_def
      example_sort_def Node_key_def Let_def slice_def copy_to_def)

text \<open>
  Claim C9 at the tree \<open>c * (y + x)\<close>: \<^verbatim>\<open>Sort\<close> exchanges the two variables, and the
  structural hash of the root is 24922 before and after.
\<close>

theorem Relaxed_hash_invariant_under_Sort_witness:
  "subtree_range_invariant unsorted_tree \<and>
   (\<exists>before sorted after.
      Hash example_hash Relaxed unsorted_tree = Some before \<and>
      Sort example_sort False before = Some sorted \<and>
      Hash example_hash Relaxed sorted = Some after \<and>
      map HashValue before = [13, 12, 11, 1, 2] \<and>
      map HashValue sorted = [13, 11, 12, 1, 2] \<and>
      Tree_HashValue before = 24922 \<and>
      Tree_HashValue after = 24922)"
proof -
  have len: "length unsorted_tree < 2 ^ 31"
    by (simp add: unsorted_tree_def)
  from Relaxed_hash_invariant_under_Sort [OF unsorted_tree_invariant len example_sort_permuting,
      of example_hash False]
  obtain before sorted after where run: "Hash example_hash Relaxed unsorted_tree = Some before"
    "Sort example_sort False before = Some sorted"
    "Hash example_hash Relaxed sorted = Some after"
    and eq: "Tree_HashValue after = Tree_HashValue before"
    by blast
  have before: "before = [leaf_node Constant 13, leaf_node Variable 12, leaf_node Variable 11,
         (function_node Add 1 2 2 2)\<lparr>CalculatedHashValue := 219481\<rparr>,
         (function_node Mul 2 2 4 3)\<lparr>CalculatedHashValue := 24922\<rparr>]"
    using run(1) by (simp only: Hash_unsorted_tree option.inject)
  have sorted: "sorted = [(leaf_node Constant 13)\<lparr>Parent := 4\<rparr>, (leaf_node Variable 11)\<lparr>Parent := 3\<rparr>,
         (leaf_node Variable 12)\<lparr>Parent := 3\<rparr>,
         (function_node Add 1 2 2 2)\<lparr>Parent := 4, CalculatedHashValue := 219481\<rparr>,
         (function_node Mul 2 2 4 3)\<lparr>CalculatedHashValue := 552319\<rparr>]"
    using run(2) unfolding before by (simp only: Sort_hashed_tree option.inject)
  have b: "Tree_HashValue before = 24922" "map HashValue before = [13, 12, 11, 1, 2]"
    unfolding before by (simp_all add: Tree_HashValue_def leaf_node_def function_node_def)
  have s: "map HashValue sorted = [13, 11, 12, 1, 2]"
    unfolding sorted by (simp add: leaf_node_def function_node_def)
  have a: "Tree_HashValue after = 24922"
    using eq b(1) by simp
  show ?thesis
    by (intro conjI exI) (rule unsorted_tree_invariant run b s a)+
qed

end
